theory Spec2Isabelle
  imports Main
begin

section \<open>Modules, vertices and the registry\<close>

text \<open>
  A \<open>Kernel::Module\<close> object is identified by its address; its name is fixed by the
  constructor and never written again.  A value of type \<open>Module\<close> stands for a pointer
  to such an object: two pointers are equal iff both components are.  The hooks
  \<open>init\<close>, \<open>tick\<close> and \<open>halt\<close> are virtual and belong to the caller; the kernel only
  calls them, so a call is recorded as an event (type \<open>Hook\<close> below).  The back pointer
  \<open>_kernel\<close> is written by \<open>add\<close> and read by nothing in the kernel; it is left out.
\<close>

datatype Module = Module (name: string) (addr: nat)

type_synonym DependencyList = "string list"

type_synonym Registration = "Module \<times> DependencyList"

datatype Status = IDLE | STARTING | RUNNING

text \<open>
  \<open>Vertex<T>\<close>: the value and the adjacency list.  A \<open>Vertex<T>*\<close> always points into
  the vector \<open>moduleGraph\<close>, whose storage is reserved before the first push, so a vertex
  pointer is the index of the vertex in that vector.
\<close>

record 'a Vertex =
  vertex_value :: 'a
  adjList :: "nat list"

text \<open>
  A \<open>std::thread\<close> object.  It is joinable from its construction until it is joined or
  detached; the destructor of a joinable \<open>std::thread\<close> calls \<open>std::terminate\<close>.
\<close>

datatype Thread = Thread (joinable: bool)

datatype Abort = Terminate

record KernelImpl =
  status :: Status
  modules :: "Module list"
  modulesAndDependencies :: "Registration list"
  kernelThread :: "Thread option"

datatype Hook = Init Module | Tick Module | Halt Module

section \<open>createGraph\<close>

text \<open>
  First loop of \<open>createGraph\<close>: one vertex per registration, in order; \<open>moduleMap\<close> from
  names to modules and \<open>vertexMap\<close> from modules to vertices, a later entry overwriting
  an earlier one with the same key.
\<close>

definition createGraph_vertices ::
  "Registration list \<Rightarrow> Module Vertex list \<times> (string \<rightharpoonup> Module) \<times> (Module \<rightharpoonup> nat)" where
  "createGraph_vertices modulesAndDeps =
     fold (\<lambda>module_dependencies (moduleGraph, moduleMap, vertexMap).
             let m = fst module_dependencies in
             (moduleGraph @ [\<lparr>vertex_value = m, adjList = []\<rparr>],
              moduleMap(name m \<mapsto> m),
              vertexMap(m \<mapsto> length moduleGraph)))
          modulesAndDeps ([], Map.empty, Map.empty)"

text \<open>\<open>dependency->adjList.push_back(vertex)\<close>\<close>

definition push_adj :: "nat \<Rightarrow> nat \<Rightarrow> 'a Vertex list \<Rightarrow> 'a Vertex list" where
  "push_adj dependency vertex moduleGraph =
     moduleGraph[dependency :=
       (moduleGraph ! dependency)\<lparr>adjList := adjList (moduleGraph ! dependency) @ [vertex]\<rparr>]"

text \<open>
  The inner loop over the dependency names of one module: each name is looked up in
  \<open>moduleMap\<close>; a name that is not found ends \<open>createGraph\<close> with \<open>false\<close> (\<open>None\<close>).
  \<open>vertexMap.find(...)->second\<close> is not checked by the source: every module in
  \<open>moduleMap\<close> was entered into \<open>vertexMap\<close> by the first loop.
\<close>

fun add_dependencies ::
  "(string \<rightharpoonup> Module) \<Rightarrow> (Module \<rightharpoonup> nat) \<Rightarrow> nat \<Rightarrow> string list
     \<Rightarrow> Module Vertex list \<Rightarrow> Module Vertex list option" where
  "add_dependencies moduleMap vertexMap vertex [] moduleGraph = Some moduleGraph"
| "add_dependencies moduleMap vertexMap vertex (nm # names) moduleGraph =
     (case moduleMap nm of
        Some dm \<Rightarrow>
          add_dependencies moduleMap vertexMap vertex names
            (push_adj (the (vertexMap dm)) vertex moduleGraph)
      | None \<Rightarrow> None)"

text \<open>The second loop of \<open>createGraph\<close>, over all registrations.\<close>

fun add_edges ::
  "(string \<rightharpoonup> Module) \<Rightarrow> (Module \<rightharpoonup> nat) \<Rightarrow> Registration list
     \<Rightarrow> Module Vertex list \<Rightarrow> Module Vertex list option" where
  "add_edges moduleMap vertexMap [] moduleGraph = Some moduleGraph"
| "add_edges moduleMap vertexMap (module_dependencies # rest) moduleGraph =
     (case add_dependencies moduleMap vertexMap
             (the (vertexMap (fst module_dependencies))) (snd module_dependencies) moduleGraph of
        Some g \<Rightarrow> add_edges moduleMap vertexMap rest g
      | None \<Rightarrow> None)"

definition createGraph :: "Registration list \<Rightarrow> Module Vertex list option" where
  "createGraph modulesAndDeps =
     (case createGraph_vertices modulesAndDeps of
        (moduleGraph, moduleMap, vertexMap) \<Rightarrow>
          add_edges moduleMap vertexMap modulesAndDeps moduleGraph)"

section \<open>sort\<close>

text \<open>
  The scan with the \<open>goto\<close>: is the vertex \<open>m\<close> still an element of the adjacency list of
  some vertex of the graph?
\<close>

definition referenced :: "'a Vertex list \<Rightarrow> nat \<Rightarrow> bool" where
  "referenced moduleGraph m = (\<exists>o' \<in> set moduleGraph. \<exists>p \<in> set (adjList o'). m = p)"

text \<open>
  The \<open>unordered_set\<close> of vertex pointers is a list without repetitions.  Inserting an
  element that is present changes nothing.  Which element \<open>begin()\<close> yields is not fixed
  by the language; the parameter \<open>pick\<close> of the loop decides it from the number of the
  iteration and the present contents, so every possible run of the source is the run of
  the model for some \<open>pick\<close>.
\<close>

definition insert_vertex :: "nat \<Rightarrow> nat list \<Rightarrow> nat list" where
  "insert_vertex m vertices = (if m \<in> set vertices then vertices else vertices @ [m])"

definition insert_unreferenced :: "'a Vertex list \<Rightarrow> nat list \<Rightarrow> nat list \<Rightarrow> nat list" where
  "insert_unreferenced moduleGraph adj vertices =
     fold (\<lambda>m vs. if referenced moduleGraph m then vs else insert_vertex m vs) adj vertices"

definition total_adj :: "'a Vertex list \<Rightarrow> nat" where
  "total_adj moduleGraph = sum_list (map (\<lambda>v. length (adjList v)) moduleGraph)"

lemma length_insert_unreferenced:
  "length (insert_unreferenced g adj vs) \<le> length vs + length adj"
proof (induction adj arbitrary: vs)
  case Nil
  show ?case by (simp add: insert_unreferenced_def)
next
  case (Cons m adj)
  have step: "insert_unreferenced g (m # adj) vs =
      insert_unreferenced g adj (if referenced g m then vs else insert_vertex m vs)"
    by (simp add: insert_unreferenced_def)
  have "length (if referenced g m then vs else insert_vertex m vs) \<le> Suc (length vs)"
    by (simp add: insert_vertex_def)
  with Cons.IH[of "if referenced g m then vs else insert_vertex m vs"] show ?case
    unfolding step by simp
qed

lemma total_adj_clear:
  assumes "v < length g"
  shows "total_adj (g[v := (g ! v)\<lparr>adjList := []\<rparr>]) + length (adjList (g ! v)) = total_adj g"
proof -
  let ?f = "\<lambda>v::'a Vertex. length (adjList v)"
  have "map ?f (g[v := (g ! v)\<lparr>adjList := []\<rparr>]) = (map ?f g)[v := 0]"
    by (simp add: map_update)
  moreover have "sum_list ((map ?f g)[v := 0]) = sum_list (map ?f g) + 0 - (map ?f g) ! v"
    using assms by (subst sum_list_update) simp_all
  moreover have "(map ?f g) ! v \<le> sum_list (map ?f g)"
    using assms by (simp add: member_le_sum_list)
  ultimately show ?thesis using assms by (simp add: total_adj_def)
qed

text \<open>
  The \<open>while\<close> loop of \<open>sort\<close>.  One iteration takes the vertex at \<open>begin()\<close>, appends its
  value to \<open>sm\<close>, erases it from the set, copies and clears its adjacency list, and
  inserts every vertex of the copy that no remaining adjacency list mentions.  The
  test \<open>vertex < length moduleGraph\<close> says that the pointer taken from the set points
  into the graph; in a run of \<open>sort\<close> it always does (lemmas \<open>loop_inv_in_range\<close> and
  \<open>sort_loop_inv\<close>), so the branch that ends the loop there is never taken.
\<close>

function sort_loop ::
  "(nat \<Rightarrow> nat list \<Rightarrow> nat) \<Rightarrow> Module Vertex list \<Rightarrow> nat list \<Rightarrow> Module list
     \<Rightarrow> Module Vertex list \<times> Module list" where
  "sort_loop pick moduleGraph vertices sm =
     (if vertices = [] then (moduleGraph, sm)
      else
        let vertex = vertices ! (pick (length sm) vertices mod length vertices) in
        if \<not> vertex < length moduleGraph then (moduleGraph, sm)
        else
          let adj = adjList (moduleGraph ! vertex);
              g = moduleGraph[vertex := (moduleGraph ! vertex)\<lparr>adjList := []\<rparr>]
          in sort_loop pick g
               (insert_unreferenced g adj (removeAll vertex vertices))
               (sm @ [vertex_value (moduleGraph ! vertex)]))"
  by pat_completeness auto
termination
proof (relation "measure (\<lambda>(pick, g, vs, sm). 2 * total_adj g + length vs)", goal_cases)
  case 1
  show ?case by simp
next
  case (2 pick g vs sm vertex adj g')
  have mem: "vertex \<in> set vs" using 2 by simp
  have a: "length (removeAll vertex vs) < length vs"
    using mem by (rule length_removeAll_less)
  have b: "length (insert_unreferenced g' adj (removeAll vertex vs))
             \<le> length (removeAll vertex vs) + length adj"
    by (rule length_insert_unreferenced)
  have c: "total_adj g' + length adj = total_adj g"
    using 2 total_adj_clear[of vertex g] by simp
  from a b c show ?case by simp
qed

declare sort_loop.simps [simp del]

text \<open>
  \<open>sort\<close>: build the graph; start from all vertices and erase those that some adjacency
  list mentions; run the loop; fail if an adjacency list is left non-empty.
\<close>

definition initial_vertices :: "'a Vertex list \<Rightarrow> nat list" where
  "initial_vertices moduleGraph =
     fold (\<lambda>n vs. fold (\<lambda>m vs'. removeAll m vs') (adjList n) vs)
          moduleGraph [0..<length moduleGraph]"

definition sort_modules ::
  "(nat \<Rightarrow> nat list \<Rightarrow> nat) \<Rightarrow> Registration list \<Rightarrow> Module list option" where
  "sort_modules pick modulesAndDeps =
     (case createGraph modulesAndDeps of
        None \<Rightarrow> None
      | Some moduleGraph \<Rightarrow>
          (case sort_loop pick moduleGraph (initial_vertices moduleGraph) [] of
             (g, sm) \<Rightarrow> if (\<exists>m \<in> set g. adjList m \<noteq> []) then None else Some sm))"

section \<open>The registry: add, remove, find\<close>

definition KernelImpl_new :: KernelImpl where
  "KernelImpl_new =
     \<lparr>status = IDLE, modules = [], modulesAndDependencies = [], kernelThread = None\<rparr>"

definition find_module :: "string \<Rightarrow> KernelImpl \<Rightarrow> Module option" where
  "find_module nm p = List.find (\<lambda>m. name m = nm) (modules p)"

text \<open>
  \<open>Kernel::add\<close>: refused unless the status is \<open>IDLE\<close> and no module of that name is
  registered; otherwise both vectors get the new entry at the back.
\<close>

definition add :: "Module \<Rightarrow> DependencyList \<Rightarrow> KernelImpl \<Rightarrow> bool \<times> KernelImpl" where
  "add m dependencies p =
     (if status p \<noteq> IDLE then (False, p)
      else if find_module (name m) p \<noteq> None then (False, p)
      else (True, p\<lparr>modulesAndDependencies := modulesAndDependencies p @ [(m, dependencies)],
                    modules := modules p @ [m]\<rparr>))"

text \<open>\<open>v[i].swap(v.back()); v.pop_back()\<close>\<close>

definition swap_pop :: "nat \<Rightarrow> 'a list \<Rightarrow> 'a list" where
  "swap_pop i xs = butlast (xs[i := last xs, length xs - 1 := xs ! i])"

text \<open>
  \<open>Kernel::remove\<close>: the first index \<open>i\<close> whose module has the name is removed from
  \<open>modules\<close>; the entry \<open>i\<close> of \<open>modulesAndDependencies\<close> is removed only if it carries the
  same name, otherwise the source logs an internal error and leaves that vector as it
  is.  \<open>remove_internal_error\<close> is the condition under which that branch is reached.
  The source reads entry \<open>i\<close> of \<open>modulesAndDependencies\<close> unchecked; the two vectors have
  the same length in every state of a kernel (lemma \<open>reachable_registry_inv\<close>).
\<close>

definition remove_index :: "string \<Rightarrow> KernelImpl \<Rightarrow> nat option" where
  "remove_index nm p =
     List.find (\<lambda>i. name (modules p ! i) = nm) [0..<length (modules p)]"

definition remove_internal_error :: "string \<Rightarrow> KernelImpl \<Rightarrow> bool" where
  "remove_internal_error nm p =
     (status p = IDLE \<and>
      (case remove_index nm p of
         None \<Rightarrow> False
       | Some i \<Rightarrow> name (fst (modulesAndDependencies p ! i)) \<noteq> nm))"

definition remove :: "string \<Rightarrow> KernelImpl \<Rightarrow> Module option \<times> KernelImpl" where
  "remove nm p =
     (if status p \<noteq> IDLE then (None, p)
      else
        (case remove_index nm p of
           None \<Rightarrow> (None, p)
         | Some i \<Rightarrow>
             (Some (modules p ! i),
              p\<lparr>modulesAndDependencies :=
                   (if remove_internal_error nm p then modulesAndDependencies p
                    else swap_pop i (modulesAndDependencies p)),
                 modules := swap_pop i (modules p)\<rparr>)))"

section \<open>The worker and start, stop, status\<close>

text \<open>
  \<open>KernelImpl::start\<close> runs on the worker thread.  Its first part, up to the store that
  ends the status \<open>STARTING\<close>, reads only the registry: it sorts, and either stores
  \<open>IDLE\<close> and returns, or calls \<open>init\<close> on the sorted modules in order and stores
  \<open>RUNNING\<close>.  The result is the new state, the worker's \<open>sortedModules\<close> if it goes on,
  and the hooks called.
\<close>

definition KernelImpl_start_up ::
  "(nat \<Rightarrow> nat list \<Rightarrow> nat) \<Rightarrow> KernelImpl \<Rightarrow> KernelImpl \<times> Module list option \<times> Hook list" where
  "KernelImpl_start_up pick p =
     (case sort_modules pick (modulesAndDependencies p) of
        None \<Rightarrow> (p\<lparr>status := IDLE\<rparr>, None, [])
      | Some sortedModules \<Rightarrow>
          (p\<lparr>status := RUNNING\<rparr>, Some sortedModules, map Init sortedModules))"

text \<open>
  The tick loop \<open>while (status.load() == RUNNING)\<close>.  What a load returns depends on the
  stores of the other thread, so the loop is driven by the list of values its
  successive loads observe: a pass of \<open>tick\<close> calls for each \<open>RUNNING\<close>, the end of the
  loop at the first other value, and \<open>None\<close> (the loop has not ended) if the list is
  used up before.  After the loop \<open>halt\<close> is called on the sorted modules from the back.
\<close>

fun tick_loop :: "Module list \<Rightarrow> Status list \<Rightarrow> Hook list option" where
  "tick_loop sortedModules [] = None"
| "tick_loop sortedModules (st # loads) =
     (if st = RUNNING
      then map_option (\<lambda>hooks. map Tick sortedModules @ hooks) (tick_loop sortedModules loads)
      else Some [])"

definition KernelImpl_start_run :: "Module list \<Rightarrow> Status list \<Rightarrow> Hook list option" where
  "KernelImpl_start_run sortedModules loads =
     map_option (\<lambda>hooks. hooks @ map Halt (rev sortedModules)) (tick_loop sortedModules loads)"

text \<open>
  \<open>Kernel::start\<close>: store \<open>STARTING\<close>, create the worker thread and put it into
  \<open>kernelThread\<close> with \<open>reset\<close>, wait until the status is no longer \<open>STARTING\<close>, and return
  whether it is \<open>RUNNING\<close>.

  \<open>reset\<close> deletes the \<open>std::thread\<close> that \<open>kernelThread\<close> held before.  Only the destructor
  of \<open>KernelImpl\<close> ever joins that thread, so the thread object of an earlier \<open>start\<close> is
  still joinable, also when its worker has returned, and deleting it ends the program
  with \<open>std::terminate\<close>: \<open>start\<close> does not return then (\<open>Inl Terminate\<close>).

  While the caller waits, the worker is the only thread that stores to the status (the
  hooks of the modules are taken not to call back into the kernel), so the state the
  caller sees is the one the first part of the worker leaves.  The result also carries
  the worker's \<open>sortedModules\<close> and the hooks called before \<open>start\<close> returns.
\<close>

definition reset_terminates :: "Thread option \<Rightarrow> bool" where
  "reset_terminates old = (case old of None \<Rightarrow> False | Some t \<Rightarrow> joinable t)"

definition start ::
  "(nat \<Rightarrow> nat list \<Rightarrow> nat) \<Rightarrow> KernelImpl
     \<Rightarrow> Abort + (bool \<times> KernelImpl \<times> Module list option \<times> Hook list)" where
  "start pick p =
     (if reset_terminates (kernelThread p) then Inl Terminate
      else
        (case KernelImpl_start_up pick
                (p\<lparr>status := STARTING, kernelThread := Some (Thread True)\<rparr>) of
           (p', worker, hooks) \<Rightarrow> Inr (status p' = RUNNING, p', worker, hooks)))"

definition stop :: "KernelImpl \<Rightarrow> KernelImpl" where
  "stop p = p\<lparr>status := IDLE\<rparr>"

section \<open>Notions used in the statements\<close>

text \<open>
  A dependency specification: its names are without repetition; every declared
  dependency name is the name of a registered module; the relation between the name of
  a dependency and the name of a module that declares it; and a list of modules in
  which every dependency of a module stands strictly before the module.
\<close>

definition unique_names :: "Registration list \<Rightarrow> bool" where
  "unique_names mds \<longleftrightarrow> distinct (map (\<lambda>r. name (fst r)) mds)"

definition resolves :: "Registration list \<Rightarrow> bool" where
  "resolves mds \<longleftrightarrow>
     (\<forall>r \<in> set mds. \<forall>nm \<in> set (snd r). nm \<in> (\<lambda>r'. name (fst r')) ` set mds)"

definition depends_on :: "Registration list \<Rightarrow> (string \<times> string) set" where
  "depends_on mds = {(d, name (fst r)) | d r. r \<in> set mds \<and> d \<in> set (snd r)}"

definition precedes :: "'a list \<Rightarrow> 'a \<Rightarrow> 'a \<Rightarrow> bool" where
  "precedes xs a b \<longleftrightarrow> (\<exists>j < length xs. \<exists>i < j. xs ! i = a \<and> xs ! j = b)"

definition dependency_order :: "Registration list \<Rightarrow> Module list \<Rightarrow> bool" where
  "dependency_order mds sm \<longleftrightarrow>
     (\<forall>r \<in> set mds. \<forall>d \<in> set (snd r). \<exists>dm \<in> set sm. name dm = d \<and> precedes sm dm (fst r))"

text \<open>The two vectors of the registry hold the same modules at the same indices.\<close>

definition consistent :: "KernelImpl \<Rightarrow> bool" where
  "consistent p =
     (length (modules p) = length (modulesAndDependencies p) \<and>
      (\<forall>i < length (modules p). fst (modulesAndDependencies p ! i) = modules p ! i))"

text \<open>The registry as \<open>add\<close> and \<open>remove\<close> keep it: parallel vectors, names without repetition.\<close>

definition registry_inv :: "KernelImpl \<Rightarrow> bool" where
  "registry_inv p \<longleftrightarrow> consistent p \<and> unique_names (modulesAndDependencies p)"

text \<open>
  The states a kernel can be in: a new kernel, and what \<open>add\<close>, \<open>remove\<close>, \<open>stop\<close> and a
  \<open>start\<close> that returns make of such a state.
\<close>

inductive reachable :: "KernelImpl \<Rightarrow> bool" where
  new: "reachable KernelImpl_new"
| add: "reachable p \<Longrightarrow> reachable (snd (add m dependencies p))"
| remove: "reachable p \<Longrightarrow> reachable (snd (remove nm p))"
| stop: "reachable p \<Longrightarrow> reachable (stop p)"
| start: "reachable p \<Longrightarrow> start pick p = Inr (b, p', worker, hooks) \<Longrightarrow> reachable p'"

text \<open>The modules on which \<open>init\<close> and \<open>halt\<close> are called in a list of hook calls, in order.\<close>

fun init_calls :: "Hook list \<Rightarrow> Module list" where
  "init_calls [] = []"
| "init_calls (Init m # hooks) = m # init_calls hooks"
| "init_calls (h # hooks) = init_calls hooks"

fun halt_calls :: "Hook list \<Rightarrow> Module list" where
  "halt_calls [] = []"
| "halt_calls (Halt m # hooks) = m # halt_calls hooks"
| "halt_calls (h # hooks) = halt_calls hooks"

text \<open>
  Two registrations of the same module whose dependency lists name the same modules,
  however often and in whatever order.
\<close>

definition same_deps :: "Registration \<Rightarrow> Registration \<Rightarrow> bool" where
  "same_deps r r' \<longleftrightarrow> fst r = fst r' \<and> set (snd r) = set (snd r')"

text \<open>Registries for the examples.\<close>

abbreviation modA :: Module where "modA \<equiv> Module ''A'' 1"
abbreviation modB :: Module where "modB \<equiv> Module ''B'' 2"
abbreviation modC :: Module where "modC \<equiv> Module ''C'' 3"

abbreviation first_begin :: "nat \<Rightarrow> nat list \<Rightarrow> nat" where
  "first_begin \<equiv> (\<lambda>k vs. 0)"

abbreviation kernel_AB :: "Status \<Rightarrow> Thread option \<Rightarrow> KernelImpl" where
  "kernel_AB st th \<equiv>
     \<lparr>status = st, modules = [modA, modB],
      modulesAndDependencies = [(modA, []), (modB, [''A''])], kernelThread = th\<rparr>"

abbreviation kernel_cycle :: "Status \<Rightarrow> Thread option \<Rightarrow> KernelImpl" where
  "kernel_cycle st th \<equiv>
     \<lparr>status = st, modules = [modA, modB],
      modulesAndDependencies = [(modA, [''B'']), (modB, [''A''])], kernelThread = th\<rparr>"

abbreviation kernel_unknown :: "Status \<Rightarrow> Thread option \<Rightarrow> KernelImpl" where
  "kernel_unknown st th \<equiv>
     \<lparr>status = st, modules = [modA],
      modulesAndDependencies = [(modA, [''Z''])], kernelThread = th\<rparr>"

abbreviation kernel_empty :: "Status \<Rightarrow> Thread option \<Rightarrow> KernelImpl" where
  "kernel_empty st th \<equiv>
     \<lparr>status = st, modules = [], modulesAndDependencies = [], kernelThread = th\<rparr>"

section \<open>The two vectors of the registry stay parallel\<close>

lemma consistent_map: "consistent p \<longleftrightarrow> map fst (modulesAndDependencies p) = modules p"
  by (auto simp: consistent_def list_eq_iff_nth_eq)

lemma swap_pop_eq: "swap_pop i xs = butlast (xs[i := last xs])"
  by (cases "xs = []") (simp_all add: swap_pop_def butlast_list_update)

lemma map_swap_pop: "map f (swap_pop i xs) = swap_pop i (map f xs)"
proof (cases "xs = []")
  case True
  then show ?thesis by (simp add: swap_pop_eq)
next
  case False
  then show ?thesis by (simp add: swap_pop_eq map_butlast map_update last_map)
qed

lemma remove_index_Some:
  "remove_index nm p = Some i \<Longrightarrow> i < length (modules p) \<and> name (modules p ! i) = nm"
  unfolding remove_index_def by (auto simp: find_Some_iff)

lemma consistent_no_internal_error:
  assumes "consistent p"
  shows "\<not> remove_internal_error nm p"
proof (cases "remove_index nm p")
  case None
  then show ?thesis by (simp add: remove_internal_error_def)
next
  case (Some i)
  with remove_index_Some have "i < length (modules p)" "name (modules p ! i) = nm" by blast+
  with assms have "name (fst (modulesAndDependencies p ! i)) = nm"
    by (simp add: consistent_def)
  with Some show ?thesis by (simp add: remove_internal_error_def)
qed

lemma consistent_add: "consistent p \<Longrightarrow> consistent (snd (add m ds p))"
  by (simp add: consistent_map add_def)

lemma consistent_remove:
  assumes "consistent p"
  shows "consistent (snd (remove nm p))"
proof -
  have "\<not> remove_internal_error nm p" using assms by (rule consistent_no_internal_error)
  with assms show ?thesis
    by (auto simp: consistent_map remove_def map_swap_pop split: option.splits)
qed

section \<open>The invariant of the loop of sort\<close>

definition wf_graph :: "'a Vertex list \<Rightarrow> bool" where
  "wf_graph g \<longleftrightarrow> (\<forall>d < length g. \<forall>u \<in> set (adjList (g ! d)). u < length g)"

definition deps_of :: "'a Vertex list \<Rightarrow> nat \<Rightarrow> nat set" where
  "deps_of g u = {d. d < length g \<and> u \<in> set (adjList (g ! d))}"

lemma referenced_iff: "referenced g m \<longleftrightarrow> deps_of g m \<noteq> {}"
proof -
  have "referenced g m \<longleftrightarrow> (\<exists>o' \<in> set g. m \<in> set (adjList o'))"
    by (auto simp: referenced_def)
  also have "\<dots> \<longleftrightarrow> (\<exists>d < length g. m \<in> set (adjList (g ! d)))"
    by (metis in_set_conv_nth)
  finally show ?thesis by (auto simp: deps_of_def)
qed

lemma set_insert_unreferenced:
  "set (insert_unreferenced g adj vs) = set vs \<union> {m \<in> set adj. \<not> referenced g m}"
proof (induction adj arbitrary: vs)
  case Nil
  show ?case by (simp add: insert_unreferenced_def)
next
  case (Cons m adj)
  have step: "insert_unreferenced g (m # adj) vs =
      insert_unreferenced g adj (if referenced g m then vs else insert_vertex m vs)"
    by (simp add: insert_unreferenced_def)
  show ?case unfolding step Cons.IH by (auto simp: insert_vertex_def)
qed

lemma set_erase_fold:
  "set (fold (\<lambda>m vs'. removeAll m vs') ms vs) = set vs - set ms"
  by (induction ms arbitrary: vs) auto

lemma set_erase_all:
  "set (fold (\<lambda>n vs. fold (\<lambda>m vs'. removeAll m vs') (adjList n) vs) g vs)
     = set vs - (\<Union>n \<in> set g. set (adjList n))"
  by (induction g arbitrary: vs) (auto simp: set_erase_fold)

lemma set_initial_vertices:
  "set (initial_vertices g) = {u. u < length g \<and> deps_of g u = {}}"
proof -
  have "\<And>u. u \<in> (\<Union>n \<in> set g. set (adjList n)) \<longleftrightarrow> referenced g u"
    by (auto simp: referenced_def)
  then show ?thesis
    unfolding initial_vertices_def set_erase_all by (auto simp: referenced_iff)
qed

definition loop_inv ::
  "'a Vertex list \<Rightarrow> nat list \<Rightarrow> 'a Vertex list \<Rightarrow> nat list \<Rightarrow> 'a list \<Rightarrow> bool" where
  "loop_inv g0 ps g vs sm \<longleftrightarrow>
     length g = length g0 \<and>
     (\<forall>v < length g0. vertex_value (g ! v) = vertex_value (g0 ! v)) \<and>
     (\<forall>v < length g0. adjList (g ! v) = (if v \<in> set ps then [] else adjList (g0 ! v))) \<and>
     distinct ps \<and> (\<forall>v \<in> set ps. v < length g0) \<and>
     sm = map (\<lambda>v. vertex_value (g0 ! v)) ps \<and>
     set vs = {u. u < length g0 \<and> u \<notin> set ps \<and> deps_of g0 u \<subseteq> set ps} \<and>
     (\<forall>i < length ps. deps_of g0 (ps ! i) \<subseteq> set (take i ps))"

lemma loop_inv_in_range:
  assumes "loop_inv g0 ps g vs sm" and "v \<in> set vs"
  shows "v < length g"
  using assms by (auto simp: loop_inv_def)

lemma loop_inv_initial: "loop_inv g0 [] g0 (initial_vertices g0) []"
  by (auto simp: loop_inv_def set_initial_vertices)

lemma popped_deps:
  assumes "loop_inv g0 ps g vs sm" "u \<in> set ps"
  shows "deps_of g0 u \<subseteq> set ps"
proof -
  from assms(2) obtain i where i: "i < length ps" "ps ! i = u"
    by (auto simp: in_set_conv_nth)
  with assms(1) have "deps_of g0 u \<subseteq> set (take i ps)" by (auto simp: loop_inv_def)
  then show ?thesis using set_take_subset[of i ps] by blast
qed

lemma deps_of_step:
  assumes inv: "loop_inv g0 ps g vs sm" and v: "v < length g0"
  shows "deps_of (g[v := (g ! v)\<lparr>adjList := []\<rparr>]) m = deps_of g0 m - (set ps \<union> {v})"
proof -
  have len: "length g = length g0" using inv by (simp add: loop_inv_def)
  have adj: "\<And>d. d < length g0 \<Longrightarrow>
      adjList (g ! d) = (if d \<in> set ps then [] else adjList (g0 ! d))"
    using inv by (simp add: loop_inv_def)
  show ?thesis
    using len v adj by (auto simp: deps_of_def nth_list_update split: if_splits)
qed

lemma loop_inv_step:
  assumes wf: "wf_graph g0" and inv: "loop_inv g0 ps g vs sm" and v: "v \<in> set vs"
  defines "g' \<equiv> g[v := (g ! v)\<lparr>adjList := []\<rparr>]"
  shows "loop_inv g0 (ps @ [v]) g'
           (insert_unreferenced g' (adjList (g ! v)) (removeAll v vs))
           (sm @ [vertex_value (g ! v)])"
proof -
  have len: "length g = length g0" using inv by (simp add: loop_inv_def)
  have vals: "\<And>d. d < length g0 \<Longrightarrow> vertex_value (g ! d) = vertex_value (g0 ! d)"
    using inv by (simp add: loop_inv_def)
  have adj: "\<And>d. d < length g0 \<Longrightarrow>
      adjList (g ! d) = (if d \<in> set ps then [] else adjList (g0 ! d))"
    using inv by (simp add: loop_inv_def)
  have dist: "distinct ps" and rng: "\<And>d. d \<in> set ps \<Longrightarrow> d < length g0"
    using inv by (simp_all add: loop_inv_def)
  have sm: "sm = map (\<lambda>v. vertex_value (g0 ! v)) ps" using inv by (simp add: loop_inv_def)
  have vs: "set vs = {u. u < length g0 \<and> u \<notin> set ps \<and> deps_of g0 u \<subseteq> set ps}"
    using inv by (simp add: loop_inv_def)
  have ord: "\<And>i. i < length ps \<Longrightarrow> deps_of g0 (ps ! i) \<subseteq> set (take i ps)"
    using inv by (simp add: loop_inv_def)
  from v vs have vn: "v < length g0" and vps: "v \<notin> set ps" and vdeps: "deps_of g0 v \<subseteq> set ps"
    by auto
  have adjv: "adjList (g ! v) = adjList (g0 ! v)" using adj[OF vn] vps by simp
  have c1: "length g' = length g0" by (simp add: g'_def len)
  have c2: "\<forall>d < length g0. vertex_value (g' ! d) = vertex_value (g0 ! d)"
    using vals len vn by (auto simp: g'_def nth_list_update)
  have c3: "\<forall>d < length g0. adjList (g' ! d) =
      (if d \<in> set (ps @ [v]) then [] else adjList (g0 ! d))"
    using adj len vn by (auto simp: g'_def nth_list_update)
  have c4: "distinct (ps @ [v])" using dist vps by simp
  have c5: "\<forall>d \<in> set (ps @ [v]). d < length g0" using rng vn by auto
  have c6: "sm @ [vertex_value (g ! v)] = map (\<lambda>v. vertex_value (g0 ! v)) (ps @ [v])"
    using sm vals[OF vn] by simp
  have ref: "\<And>m. referenced g' m \<longleftrightarrow> \<not> deps_of g0 m \<subseteq> set ps \<union> {v}"
    unfolding referenced_iff g'_def deps_of_step[OF inv vn] by auto
  have c7: "set (insert_unreferenced g' (adjList (g ! v)) (removeAll v vs)) =
      {u. u < length g0 \<and> u \<notin> set (ps @ [v]) \<and> deps_of g0 u \<subseteq> set (ps @ [v])}"
    (is "?L = ?R")
  proof (rule set_eqI)
    fix u
    show "u \<in> ?L \<longleftrightarrow> u \<in> ?R"
    proof
      assume "u \<in> ?L"
      then consider (old) "u \<in> set vs" "u \<noteq> v"
        | (new) "u \<in> set (adjList (g0 ! v))" "deps_of g0 u \<subseteq> set ps \<union> {v}"
        by (auto simp: set_insert_unreferenced ref adjv)
      then show "u \<in> ?R"
      proof cases
        case old
        then show ?thesis using vs by auto
      next
        case new
        have un: "u < length g0" using wf vn new(1) by (auto simp: wf_graph_def)
        have vdep: "v \<in> deps_of g0 u" using new(1) vn by (simp add: deps_of_def)
        have "u \<noteq> v" using vdep vdeps vps by auto
        moreover have "u \<notin> set ps" using popped_deps[OF inv] vdep vps by blast
        ultimately show ?thesis using un new(2) by simp
      qed
    next
      assume r: "u \<in> ?R"
      show "u \<in> ?L"
      proof (cases "deps_of g0 u \<subseteq> set ps")
        case True
        with r have "u \<in> set vs" "u \<noteq> v" using vs by auto
        then show ?thesis by (simp add: set_insert_unreferenced)
      next
        case False
        with r have "v \<in> deps_of g0 u" by auto
        then have "u \<in> set (adjList (g0 ! v))" by (simp add: deps_of_def)
        with r show ?thesis by (simp add: set_insert_unreferenced ref adjv)
      qed
    qed
  qed
  have c8: "\<forall>i < length (ps @ [v]). deps_of g0 ((ps @ [v]) ! i) \<subseteq> set (take i (ps @ [v]))"
  proof (intro allI impI)
    fix i assume "i < length (ps @ [v])"
    then consider "i < length ps" | "i = length ps" by fastforce
    then show "deps_of g0 ((ps @ [v]) ! i) \<subseteq> set (take i (ps @ [v]))"
    proof cases
      case 1
      then show ?thesis using ord[OF 1] by (simp add: nth_append)
    next
      case 2
      then show ?thesis using vdeps by simp
    qed
  qed
  show ?thesis
    unfolding loop_inv_def using c1 c2 c3 c4 c5 c6 c7 c8 by blast
qed

lemma sort_loop_inv:
  assumes "wf_graph g0" "loop_inv g0 ps g vs sm"
  shows "\<exists>ps'. loop_inv g0 ps' (fst (sort_loop pick g vs sm)) [] (snd (sort_loop pick g vs sm))"
  using assms
proof (induction pick g vs sm arbitrary: ps rule: sort_loop.induct)
  case (1 pick g vs sm)
  show ?case
  proof (cases "vs = []")
    case True
    with "1.prems"(2) show ?thesis by (auto simp: sort_loop.simps)
  next
    case False
    define v where "v = vs ! (pick (length sm) vs mod length vs)"
    have vin: "v \<in> set vs" using False by (simp add: v_def)
    have "v < length g" using "1.prems"(2) vin by (rule loop_inv_in_range)
    define g' where "g' = g[v := (g ! v)\<lparr>adjList := []\<rparr>]"
    have inv': "loop_inv g0 (ps @ [v]) g'
           (insert_unreferenced g' (adjList (g ! v)) (removeAll v vs))
           (sm @ [vertex_value (g ! v)])"
      unfolding g'_def using "1.prems" vin by (rule loop_inv_step)
    have eq: "sort_loop pick g vs sm = sort_loop pick g'
           (insert_unreferenced g' (adjList (g ! v)) (removeAll v vs))
           (sm @ [vertex_value (g ! v)])"
      using False \<open>v < length g\<close>
      by (subst sort_loop.simps) (simp add: v_def g'_def Let_def)
    have nn: "\<not> \<not> v < length g" using \<open>v < length g\<close> by simp
    show ?thesis
      unfolding eq
      using "1.IH"[OF False v_def nn refl g'_def "1.prems"(1) inv'] by blast
  qed
qed

section \<open>The graph that createGraph builds\<close>

lemma createGraph_vertices_closed:
  "createGraph_vertices mds =
     (map (\<lambda>r. \<lparr>vertex_value = fst r, adjList = []\<rparr>) mds,
      map_of (rev (map (\<lambda>r. (name (fst r), fst r)) mds)),
      map_of (rev (zip (map fst mds) [0..<length mds])))"
proof (induction mds rule: rev_induct)
  case Nil
  show ?case by (simp add: createGraph_vertices_def)
next
  case (snoc x xs)
  have "createGraph_vertices (xs @ [x]) =
      (case createGraph_vertices xs of (g, mm, vm) \<Rightarrow>
         (g @ [\<lparr>vertex_value = fst x, adjList = []\<rparr>], mm(name (fst x) \<mapsto> fst x),
          vm(fst x \<mapsto> length g)))"
    by (simp add: createGraph_vertices_def Let_def)
  then show ?case unfolding snoc.IH by (auto simp: fun_eq_iff)
qed

definition moduleMap_of :: "Registration list \<Rightarrow> string \<rightharpoonup> Module" where
  "moduleMap_of mds = fst (snd (createGraph_vertices mds))"

definition vertexMap_of :: "Registration list \<Rightarrow> Module \<rightharpoonup> nat" where
  "vertexMap_of mds = snd (snd (createGraph_vertices mds))"

definition target :: "Registration list \<Rightarrow> string \<Rightarrow> nat" where
  "target mds nm = the (vertexMap_of mds (the (moduleMap_of mds nm)))"

lemma moduleMap_of_None:
  "moduleMap_of mds nm = None \<longleftrightarrow> nm \<notin> (\<lambda>r. name (fst r)) ` set mds"
  by (simp add: moduleMap_of_def createGraph_vertices_closed map_of_eq_None_iff image_image)

lemma moduleMap_of_Some:
  assumes "moduleMap_of mds nm = Some m"
  shows "m \<in> fst ` set mds \<and> name m = nm"
proof -
  from assms have "(nm, m) \<in> set (rev (map (\<lambda>r. (name (fst r), fst r)) mds))"
    unfolding moduleMap_of_def createGraph_vertices_closed by (auto dest: map_of_SomeD)
  then show ?thesis by auto
qed

lemma vertexMap_of_Some:
  assumes "vertexMap_of mds m = Some i"
  shows "i < length mds \<and> fst (mds ! i) = m"
proof -
  from assms have "(m, i) \<in> set (zip (map fst mds) [0..<length mds])"
    unfolding vertexMap_of_def createGraph_vertices_closed by (auto dest: map_of_SomeD)
  then show ?thesis by (auto simp: set_zip)
qed

lemma vertexMap_of_defined:
  assumes "m \<in> fst ` set mds"
  shows "\<exists>i. vertexMap_of mds m = Some i"
proof -
  have "fst ` set (rev (zip (map fst mds) [0..<length mds])) = fst ` set mds"
    by (simp add: image_image flip: set_map)
  with assms have "map_of (rev (zip (map fst mds) [0..<length mds])) m \<noteq> None"
    by (simp add: map_of_eq_None_iff)
  then show ?thesis by (auto simp: vertexMap_of_def createGraph_vertices_closed)
qed

lemma target_less:
  assumes "moduleMap_of mds nm \<noteq> None"
  shows "target mds nm < length mds"
proof -
  from assms obtain m where m: "moduleMap_of mds nm = Some m" by auto
  then have "m \<in> fst ` set mds" using moduleMap_of_Some by blast
  then obtain i where "vertexMap_of mds m = Some i" using vertexMap_of_defined by blast
  with m vertexMap_of_Some[of mds m i] show ?thesis by (simp add: target_def)
qed

text \<open>With distinct names every name and every module has exactly one vertex.\<close>

lemma moduleMap_of_distinct:
  assumes "distinct (map (\<lambda>r. name (fst r)) mds)" "i < length mds"
  shows "moduleMap_of mds (name (fst (mds ! i))) = Some (fst (mds ! i))"
proof -
  have "distinct (map fst (rev (map (\<lambda>r. (name (fst r), fst r)) mds)))"
    using assms(1) by (simp add: rev_map[symmetric] comp_def distinct_rev)
  moreover have "(name (fst (mds ! i)), fst (mds ! i))
      \<in> set (rev (map (\<lambda>r. (name (fst r), fst r)) mds))"
    using assms(2) by auto
  ultimately show ?thesis
    unfolding moduleMap_of_def createGraph_vertices_closed by (simp add: map_of_is_SomeI)
qed

lemma distinct_names_modules:
  assumes "distinct (map (\<lambda>r. name (fst r)) mds)"
  shows "distinct (map fst mds)"
proof -
  have "map (\<lambda>r. name (fst r)) mds = map name (map fst mds)" by simp
  with assms show ?thesis by (metis distinct_map)
qed

lemma vertexMap_of_distinct:
  assumes "distinct (map (\<lambda>r. name (fst r)) mds)" "i < length mds"
  shows "vertexMap_of mds (fst (mds ! i)) = Some i"
proof -
  obtain k where k: "vertexMap_of mds (fst (mds ! i)) = Some k"
    using vertexMap_of_defined[of "fst (mds ! i)" mds] assms(2) by auto
  then have "k < length mds" "fst (mds ! k) = fst (mds ! i)"
    using vertexMap_of_Some by blast+
  then have "k = i"
    using nth_eq_iff_index_eq[OF distinct_names_modules[OF assms(1)], of k i] assms(2)
    by simp
  with k show ?thesis by simp
qed

lemma target_distinct:
  assumes "distinct (map (\<lambda>r. name (fst r)) mds)" "i < length mds"
  shows "target mds (name (fst (mds ! i))) = i"
  by (simp add: target_def moduleMap_of_distinct[OF assms] vertexMap_of_distinct[OF assms])


lemma push_adj_props:
  assumes "d < length g"
  shows "length (push_adj d v g) = length g"
    and "\<And>j. j < length g \<Longrightarrow> vertex_value (push_adj d v g ! j) = vertex_value (g ! j)"
    and "\<And>j. j < length g \<Longrightarrow>
           adjList (push_adj d v g ! j) = adjList (g ! j) @ (if j = d then [v] else [])"
  using assms by (auto simp: push_adj_def nth_list_update)

lemma add_dependencies_None:
  "add_dependencies mm vm v names g = None \<longleftrightarrow> (\<exists>nm \<in> set names. mm nm = None)"
  by (induction names arbitrary: g) (auto split: option.splits)

lemma add_dependencies_Some:
  assumes "\<forall>nm \<in> set names. mm nm \<noteq> None \<and> the (vm (the (mm nm))) < length g"
  shows "\<exists>g'. add_dependencies mm vm v names g = Some g' \<and> length g' = length g \<and>
           (\<forall>j < length g. vertex_value (g' ! j) = vertex_value (g ! j) \<and>
              adjList (g' ! j) = adjList (g ! j) @
                replicate (length (filter (\<lambda>nm. the (vm (the (mm nm))) = j) names)) v)"
  using assms
proof (induction names arbitrary: g)
  case Nil
  show ?case by simp
next
  case (Cons nm names)
  from Cons.prems obtain dm where dm: "mm nm = Some dm" by auto
  define d where "d = the (vm dm)"
  have dlt: "d < length g" using Cons.prems dm by (simp add: d_def)
  define g1 where "g1 = push_adj d v g"
  have len1: "length g1 = length g" unfolding g1_def using dlt by (rule push_adj_props)
  have "\<forall>nm \<in> set names. mm nm \<noteq> None \<and> the (vm (the (mm nm))) < length g1"
    using Cons.prems len1 by simp
  from Cons.IH[OF this] obtain g' where g':
    "add_dependencies mm vm v names g1 = Some g'" "length g' = length g1"
    "\<And>j. j < length g1 \<Longrightarrow> vertex_value (g' ! j) = vertex_value (g1 ! j) \<and>
       adjList (g' ! j) = adjList (g1 ! j) @
         replicate (length (filter (\<lambda>nm. the (vm (the (mm nm))) = j) names)) v"
    by blast
  have run: "add_dependencies mm vm v (nm # names) g = Some g'"
    using dm g'(1) by (simp add: d_def g1_def)
  have "\<And>j. j < length g \<Longrightarrow> vertex_value (g' ! j) = vertex_value (g ! j) \<and>
      adjList (g' ! j) = adjList (g ! j) @
        replicate (length (filter (\<lambda>nm. the (vm (the (mm nm))) = j) (nm # names))) v"
  proof -
    fix j assume j: "j < length g"
    have a: "vertex_value (g1 ! j) = vertex_value (g ! j)"
      unfolding g1_def using dlt j by (rule push_adj_props)
    have b: "adjList (g1 ! j) = adjList (g ! j) @ (if j = d then [v] else [])"
      unfolding g1_def using dlt j by (rule push_adj_props)
    show "vertex_value (g' ! j) = vertex_value (g ! j) \<and>
      adjList (g' ! j) = adjList (g ! j) @
        replicate (length (filter (\<lambda>nm. the (vm (the (mm nm))) = j) (nm # names))) v"
      using g'(3)[of j] j len1 a b dm by (auto simp: d_def)
  qed
  with run g'(2) len1 show ?case by simp
qed

lemma add_edges_None:
  "add_edges mm vm regs g = None \<longleftrightarrow> (\<exists>r \<in> set regs. \<exists>nm \<in> set (snd r). mm nm = None)"
proof (induction regs arbitrary: g)
  case Nil
  show ?case by simp
next
  case (Cons r regs)
  show ?case
  proof (cases "add_dependencies mm vm (the (vm (fst r))) (snd r) g")
    case None
    then show ?thesis using add_dependencies_None[of mm vm _ "snd r" g] by auto
  next
    case (Some g1)
    then have "\<not> (\<exists>nm \<in> set (snd r). mm nm = None)"
      using add_dependencies_None[of mm vm "the (vm (fst r))" "snd r" g] by simp
    with Some Cons.IH[of g1] show ?thesis by auto
  qed
qed

definition edges_into ::
  "(string \<rightharpoonup> Module) \<Rightarrow> (Module \<rightharpoonup> nat) \<Rightarrow> Registration list \<Rightarrow> nat \<Rightarrow> nat list" where
  "edges_into mm vm regs j =
     concat (map (\<lambda>r. replicate (length (filter (\<lambda>nm. the (vm (the (mm nm))) = j) (snd r)))
                        (the (vm (fst r)))) regs)"

lemma add_edges_Some:
  assumes "\<forall>r \<in> set regs. \<forall>nm \<in> set (snd r). mm nm \<noteq> None \<and> the (vm (the (mm nm))) < length g"
  shows "\<exists>g'. add_edges mm vm regs g = Some g' \<and> length g' = length g \<and>
           (\<forall>j < length g. vertex_value (g' ! j) = vertex_value (g ! j) \<and>
              adjList (g' ! j) = adjList (g ! j) @ edges_into mm vm regs j)"
  using assms
proof (induction regs arbitrary: g)
  case Nil
  show ?case by (simp add: edges_into_def)
next
  case (Cons r regs)
  have "\<forall>nm \<in> set (snd r). mm nm \<noteq> None \<and> the (vm (the (mm nm))) < length g"
    using Cons.prems by simp
  from add_dependencies_Some[OF this, of "the (vm (fst r))"] obtain g1 where g1:
    "add_dependencies mm vm (the (vm (fst r))) (snd r) g = Some g1" "length g1 = length g"
    "\<And>j. j < length g \<Longrightarrow> vertex_value (g1 ! j) = vertex_value (g ! j) \<and>
       adjList (g1 ! j) = adjList (g ! j) @
         replicate (length (filter (\<lambda>nm. the (vm (the (mm nm))) = j) (snd r))) (the (vm (fst r)))"
    by blast
  have "\<forall>r \<in> set regs. \<forall>nm \<in> set (snd r). mm nm \<noteq> None \<and> the (vm (the (mm nm))) < length g1"
    using Cons.prems g1(2) by simp
  from Cons.IH[OF this] obtain g' where g':
    "add_edges mm vm regs g1 = Some g'" "length g' = length g1"
    "\<And>j. j < length g1 \<Longrightarrow> vertex_value (g' ! j) = vertex_value (g1 ! j) \<and>
       adjList (g' ! j) = adjList (g1 ! j) @ edges_into mm vm regs j"
    by blast
  have "add_edges mm vm (r # regs) g = Some g'" using g1(1) g'(1) by simp
  moreover have "\<forall>j < length g. vertex_value (g' ! j) = vertex_value (g ! j) \<and>
      adjList (g' ! j) = adjList (g ! j) @ edges_into mm vm (r # regs) j"
    using g1(3) g'(3) g1(2) by (simp add: edges_into_def)
  ultimately show ?case using g'(2) g1(2) by simp
qed

lemma createGraph_alt:
  "createGraph mds =
     add_edges (moduleMap_of mds) (vertexMap_of mds) mds
       (map (\<lambda>r. \<lparr>vertex_value = fst r, adjList = []\<rparr>) mds)"
  by (simp add: createGraph_def moduleMap_of_def vertexMap_of_def createGraph_vertices_closed)

lemma createGraph_None_iff: "createGraph mds = None \<longleftrightarrow> \<not> resolves mds"
  unfolding createGraph_alt add_edges_None moduleMap_of_None resolves_def by blast

lemma createGraph_Some:
  assumes "createGraph mds = Some g0"
  shows "length g0 = length mds"
    and "\<And>j. j < length mds \<Longrightarrow> vertex_value (g0 ! j) = fst (mds ! j)"
    and "\<And>j. j < length mds \<Longrightarrow>
           adjList (g0 ! j) = edges_into (moduleMap_of mds) (vertexMap_of mds) mds j"
proof -
  let ?g = "map (\<lambda>r. \<lparr>vertex_value = fst r, adjList = []\<rparr>) mds"
  have "resolves mds" using assms createGraph_None_iff[of mds] by auto
  then have "\<forall>r \<in> set mds. \<forall>nm \<in> set (snd r). moduleMap_of mds nm \<noteq> None"
    unfolding moduleMap_of_None resolves_def by blast
  then have "\<forall>r \<in> set mds. \<forall>nm \<in> set (snd r). moduleMap_of mds nm \<noteq> None \<and>
      the (vertexMap_of mds (the (moduleMap_of mds nm))) < length ?g"
    using target_less[of mds] by (auto simp: target_def)
  from add_edges_Some[OF this] assms obtain g' where g':
    "g' = g0" "length g' = length ?g"
    "\<And>j. j < length ?g \<Longrightarrow> vertex_value (g' ! j) = vertex_value (?g ! j) \<and>
       adjList (g' ! j) = adjList (?g ! j) @ edges_into (moduleMap_of mds) (vertexMap_of mds) mds j"
    unfolding createGraph_alt by auto
  show "length g0 = length mds" using g'(1,2) by simp
  show "\<And>j. j < length mds \<Longrightarrow> vertex_value (g0 ! j) = fst (mds ! j)"
    using g'(1) g'(3) by simp
  show "\<And>j. j < length mds \<Longrightarrow>
           adjList (g0 ! j) = edges_into (moduleMap_of mds) (vertexMap_of mds) mds j"
    using g'(1) g'(3) by simp
qed

lemma set_edges_into:
  "set (edges_into mm vm regs j) =
     {the (vm (fst r)) | r. r \<in> set regs \<and> (\<exists>nm \<in> set (snd r). the (vm (the (mm nm))) = j)}"
proof -
  have "set (edges_into mm vm regs j) =
      (\<Union>r \<in> set regs. if (\<forall>nm \<in> set (snd r). the (vm (the (mm nm))) \<noteq> j) then {}
                          else {the (vm (fst r))})"
    by (simp add: edges_into_def set_replicate_conv_if filter_empty_conv)
  also have "\<dots> = {the (vm (fst r)) | r. r \<in> set regs \<and>
      (\<exists>nm \<in> set (snd r). the (vm (the (mm nm))) = j)}"
  proof (rule set_eqI, rule iffI)
    fix x
    assume "x \<in> (\<Union>r \<in> set regs. if (\<forall>nm \<in> set (snd r). the (vm (the (mm nm))) \<noteq> j) then {}
                          else {the (vm (fst r))})"
    then obtain r where r: "r \<in> set regs"
      "x \<in> (if (\<forall>nm \<in> set (snd r). the (vm (the (mm nm))) \<noteq> j) then {}
                          else {the (vm (fst r))})" by blast
    from r(2) have "\<not> (\<forall>nm \<in> set (snd r). the (vm (the (mm nm))) \<noteq> j)"
      by (cases "\<forall>nm \<in> set (snd r). the (vm (the (mm nm))) \<noteq> j") simp_all
    moreover from r(2) have "x = the (vm (fst r))" by (auto split: if_splits)
    ultimately show "x \<in> {the (vm (fst r)) | r. r \<in> set regs \<and>
      (\<exists>nm \<in> set (snd r). the (vm (the (mm nm))) = j)}" using r(1) by blast
  next
    fix x
    assume "x \<in> {the (vm (fst r)) | r. r \<in> set regs \<and>
      (\<exists>nm \<in> set (snd r). the (vm (the (mm nm))) = j)}"
    then obtain r where r: "r \<in> set regs" "x = the (vm (fst r))"
      "\<exists>nm \<in> set (snd r). the (vm (the (mm nm))) = j" by blast
    then have "x \<in> (if (\<forall>nm \<in> set (snd r). the (vm (the (mm nm))) \<noteq> j) then {}
                          else {the (vm (fst r))})" by auto
    with r(1) show "x \<in> (\<Union>r \<in> set regs. if (\<forall>nm \<in> set (snd r). the (vm (the (mm nm))) \<noteq> j) then {}
                          else {the (vm (fst r))})" by blast
  qed
  finally show ?thesis .
qed

lemma createGraph_adj:
  assumes cg: "createGraph mds = Some g0" and un: "unique_names mds" and j: "j < length mds"
  shows "set (adjList (g0 ! j)) =
           {i. i < length mds \<and> name (fst (mds ! j)) \<in> set (snd (mds ! i))}"
proof -
  have dist: "distinct (map (\<lambda>r. name (fst r)) mds)" using un by (simp add: unique_names_def)
  have res: "resolves mds" using cg createGraph_None_iff[of mds] by auto
  have tgt: "\<And>i nm. i < length mds \<Longrightarrow> nm \<in> set (snd (mds ! i)) \<Longrightarrow>
      target mds nm = j \<longleftrightarrow> nm = name (fst (mds ! j))"
  proof -
    fix i nm assume "i < length mds" "nm \<in> set (snd (mds ! i))"
    then have "nm \<in> (\<lambda>r'. name (fst r')) ` set mds"
      using res nth_mem[of i mds] unfolding resolves_def by blast
    then obtain r' where "r' \<in> set mds" "name (fst r') = nm" by auto
    then obtain k where k: "k < length mds" "nm = name (fst (mds ! k))"
      by (auto simp: in_set_conv_nth)
    have "target mds nm = k" using target_distinct[OF dist k(1)] k(2) by simp
    moreover have "k = j \<longleftrightarrow> nm = name (fst (mds ! j))"
      using nth_eq_iff_index_eq[OF dist, of k j] k j by auto
    ultimately show "target mds nm = j \<longleftrightarrow> nm = name (fst (mds ! j))" by simp
  qed
  have "set (adjList (g0 ! j)) =
      {the (vertexMap_of mds (fst r)) | r. r \<in> set mds \<and> (\<exists>nm \<in> set (snd r). target mds nm = j)}"
    using createGraph_Some(3)[OF cg j] by (simp add: set_edges_into target_def)
  also have "\<dots> = {i. i < length mds \<and> (\<exists>nm \<in> set (snd (mds ! i)). target mds nm = j)}"
    (is "?A = ?B")
  proof (rule set_eqI)
    fix i
    show "i \<in> ?A \<longleftrightarrow> i \<in> ?B"
    proof
      assume "i \<in> ?A"
      then obtain r where r: "r \<in> set mds" "i = the (vertexMap_of mds (fst r))"
        "\<exists>nm \<in> set (snd r). target mds nm = j" by blast
      from r(1) obtain k where k: "k < length mds" "mds ! k = r" by (auto simp: in_set_conv_nth)
      have "i = k" using vertexMap_of_distinct[OF dist k(1)] k(2) r(2) by simp
      with k r(3) show "i \<in> ?B" by simp
    next
      assume "i \<in> ?B"
      then have i: "i < length mds" "\<exists>nm \<in> set (snd (mds ! i)). target mds nm = j" by auto
      have "i = the (vertexMap_of mds (fst (mds ! i)))"
        using vertexMap_of_distinct[OF dist i(1)] by simp
      moreover have "mds ! i \<in> set mds" using i(1) by simp
      ultimately show "i \<in> ?A" using i(2)
        by (intro CollectI exI[of _ "mds ! i"]) simp
    qed
  qed
  also have "\<dots> = {i. i < length mds \<and> name (fst (mds ! j)) \<in> set (snd (mds ! i))}"
  proof -
    have "(\<exists>nm \<in> set (snd (mds ! i)). target mds nm = j) \<longleftrightarrow>
        name (fst (mds ! j)) \<in> set (snd (mds ! i))" if i: "i < length mds" for i
    proof
      assume "\<exists>nm \<in> set (snd (mds ! i)). target mds nm = j"
      then obtain nm where nm: "nm \<in> set (snd (mds ! i))" "target mds nm = j" by blast
      with tgt[OF i nm(1)] show "name (fst (mds ! j)) \<in> set (snd (mds ! i))" by simp
    next
      assume a: "name (fst (mds ! j)) \<in> set (snd (mds ! i))"
      with tgt[OF i a] show "\<exists>nm \<in> set (snd (mds ! i)). target mds nm = j" by blast
    qed
    then show ?thesis by auto
  qed
  finally show ?thesis .
qed

section \<open>The state of sort when the loop has ended\<close>

definition edges :: "'a Vertex list \<Rightarrow> (nat \<times> nat) set" where
  "edges g = {(d, u). d < length g \<and> u \<in> set (adjList (g ! d))}"

lemma deps_of_edges: "deps_of g u = {d. (d, u) \<in> edges g}"
  by (simp add: deps_of_def edges_def)

lemma finite_edges:
  assumes "wf_graph g"
  shows "finite (edges g)"
proof -
  have "edges g \<subseteq> {..<length g} \<times> {..<length g}"
    using assms by (auto simp: edges_def wf_graph_def)
  then show ?thesis by (rule finite_subset) simp
qed

text \<open>When the loop has ended, a vertex that was not taken has a dependency that was not taken.\<close>

lemma final_unpopped_dep:
  assumes inv: "loop_inv g0 ps g [] sm" and u: "u < length g0" "u \<notin> set ps"
  shows "\<exists>d. (d, u) \<in> edges g0 \<and> d \<notin> set ps"
proof -
  have "{u. u < length g0 \<and> u \<notin> set ps \<and> deps_of g0 u \<subseteq> set ps} = {}"
    using inv by (simp add: loop_inv_def)
  with u have "\<not> deps_of g0 u \<subseteq> set ps" by blast
  then show ?thesis by (auto simp: deps_of_edges)
qed

lemma final_adj_nonempty:
  assumes inv: "loop_inv g0 ps g [] sm" and d: "(d, u) \<in> edges g0" "d \<notin> set ps"
  shows "\<exists>m \<in> set g. adjList m \<noteq> []"
proof -
  have dn: "d < length g0" and ud: "u \<in> set (adjList (g0 ! d))"
    using d(1) by (simp_all add: edges_def)
  have "length g = length g0" using inv by (simp add: loop_inv_def)
  moreover have "adjList (g ! d) = adjList (g0 ! d)"
    using inv dn d(2) by (simp add: loop_inv_def)
  ultimately have "g ! d \<in> set g" "adjList (g ! d) \<noteq> []" using dn ud by auto
  then show ?thesis by blast
qed

lemma final_success_iff:
  assumes inv: "loop_inv g0 ps g [] sm"
  shows "(\<forall>m \<in> set g. adjList m = []) \<longleftrightarrow> set ps = {..<length g0}"
proof
  assume empty: "\<forall>m \<in> set g. adjList m = []"
  have "u \<in> set ps" if "u < length g0" for u
  proof (rule ccontr)
    assume "u \<notin> set ps"
    from final_unpopped_dep[OF inv that this] obtain d where
      "(d, u) \<in> edges g0" "d \<notin> set ps" by blast
    from final_adj_nonempty[OF inv this] empty show False by blast
  qed
  moreover have "\<forall>v \<in> set ps. v < length g0" using inv by (simp add: loop_inv_def)
  ultimately show "set ps = {..<length g0}" by auto
next
  assume all: "set ps = {..<length g0}"
  have len: "length g = length g0" using inv by (simp add: loop_inv_def)
  have "adjList (g ! v) = []" if "v < length g" for v
    using inv that all len by (simp add: loop_inv_def)
  then show "\<forall>m \<in> set g. adjList m = []" by (auto simp: in_set_conv_nth)
qed

lemma final_acyclic_all_popped:
  assumes wf: "wf_graph g0" and inv: "loop_inv g0 ps g [] sm" and ac: "acyclic (edges g0)"
  shows "set ps = {..<length g0}"
proof -
  have wfE: "wf (edges g0)" using finite_edges[OF wf] ac by (rule finite_acyclic_wf)
  have "u \<in> set ps" if "u < length g0" for u
  proof (rule ccontr)
    assume "u \<notin> set ps"
    then have "u \<in> {u. u < length g0 \<and> u \<notin> set ps}" using that by simp
    from wfE_min[OF wfE this] obtain z where
      z: "z \<in> {u. u < length g0 \<and> u \<notin> set ps}"
      and zmin: "\<And>y. (y, z) \<in> edges g0 \<Longrightarrow> y \<notin> {u. u < length g0 \<and> u \<notin> set ps}"
      by blast
    from z have "z < length g0" "z \<notin> set ps" by simp_all
    from final_unpopped_dep[OF inv this] obtain d where
      d: "(d, z) \<in> edges g0" "d \<notin> set ps" by blast
    then have "d < length g0" by (simp add: edges_def)
    with d zmin[OF d(1)] show False by simp
  qed
  moreover have "\<forall>v \<in> set ps. v < length g0" using inv by (simp add: loop_inv_def)
  ultimately show ?thesis by auto
qed

text \<open>The vertices taken so far are closed under predecessors, at every prefix.\<close>

lemma prefix_closed:
  assumes inv: "loop_inv g0 ps g vs sm" and k: "k \<le> length ps"
    and e: "(a, b) \<in> (edges g0)\<^sup>+" and b: "b \<in> set (take k ps)"
  shows "a \<in> set (take k ps)"
  using e b
proof (induction rule: trancl_induct)
  case (base y)
  from base(2) obtain i where i: "i < k" "i < length ps" "ps ! i = y"
    by (auto simp: in_set_conv_nth)
  have "deps_of g0 (ps ! i) \<subseteq> set (take i ps)" using inv i(2) by (simp add: loop_inv_def)
  with base(1) i(3) have "a \<in> set (take i ps)" by (auto simp: deps_of_edges)
  moreover have "set (take i ps) \<subseteq> set (take k ps)" using i(1) by (simp add: set_take_subset_set_take)
  ultimately show ?case by blast
next
  case (step y z)
  from step(4) obtain i where i: "i < k" "i < length ps" "ps ! i = z"
    by (auto simp: in_set_conv_nth)
  have "deps_of g0 (ps ! i) \<subseteq> set (take i ps)" using inv i(2) by (simp add: loop_inv_def)
  with step(2) i(3) have "y \<in> set (take i ps)" by (auto simp: deps_of_edges)
  moreover have "set (take i ps) \<subseteq> set (take k ps)" using i(1) by (simp add: set_take_subset_set_take)
  ultimately have "y \<in> set (take k ps)" by blast
  then show ?case by (rule step.IH)
qed

lemma cycle_not_popped:
  assumes inv: "loop_inv g0 ps g vs sm" and cyc: "(x, x) \<in> (edges g0)\<^sup>+"
  shows "x \<notin> set ps"
proof
  assume "x \<in> set ps"
  then obtain k where k: "k < length ps" "ps ! k = x" by (auto simp: in_set_conv_nth)
  from cyc obtain y where y: "(x, y) \<in> (edges g0)\<^sup>*" "(y, x) \<in> edges g0"
    by (meson tranclE rtrancl_eq_or_trancl trancl_into_rtrancl rtrancl.rtrancl_refl)
  have "deps_of g0 (ps ! k) \<subseteq> set (take k ps)" using inv k(1) by (simp add: loop_inv_def)
  with y(2) k(2) have yk: "y \<in> set (take k ps)" by (auto simp: deps_of_edges)
  have "x \<in> set (take k ps)"
  proof (cases "x = y")
    case True
    with yk show ?thesis by simp
  next
    case False
    with y(1) have "(x, y) \<in> (edges g0)\<^sup>+" by (simp add: rtrancl_eq_or_trancl)
    from prefix_closed[OF inv _ this yk] k(1) show ?thesis by simp
  qed
  then obtain i where i: "i < k" "ps ! i = x" using k(1) by (auto simp: in_set_conv_nth)
  have "distinct ps" using inv by (simp add: loop_inv_def)
  from nth_eq_iff_index_eq[OF this, of i k] i k show False by simp
qed

lemma final_cyclic_fails:
  assumes inv: "loop_inv g0 ps g [] sm" and cyc: "\<not> acyclic (edges g0)"
  shows "\<exists>m \<in> set g. adjList m \<noteq> []"
proof -
  from cyc obtain x where x: "(x, x) \<in> (edges g0)\<^sup>+" by (auto simp: acyclic_def)
  then obtain y where y: "(x, y) \<in> edges g0" by (meson tranclD)
  have "x \<notin> set ps" using inv x by (rule cycle_not_popped)
  with inv y show ?thesis by (rule final_adj_nonempty)
qed

section \<open>Dependency specifications and the order that sort returns\<close>

lemma createGraph_edges:
  assumes cg: "createGraph mds = Some g0" and un: "unique_names mds"
  shows "edges g0 = {(d, u). d < length mds \<and> u < length mds \<and>
                       name (fst (mds ! d)) \<in> set (snd (mds ! u))}"
  using createGraph_Some(1)[OF cg] createGraph_adj[OF cg un]
  by (auto simp: edges_def)

lemma createGraph_wf:
  assumes cg: "createGraph mds = Some g0" and un: "unique_names mds"
  shows "wf_graph g0"
  using createGraph_Some(1)[OF cg] createGraph_adj[OF cg un]
  by (auto simp: wf_graph_def)

lemma edges_depends_on:
  assumes cg: "createGraph mds = Some g0" and un: "unique_names mds"
    and e: "(d, u) \<in> edges g0"
  shows "(name (fst (mds ! d)), name (fst (mds ! u))) \<in> depends_on mds"
proof -
  from e have "d < length mds" "u < length mds" "name (fst (mds ! d)) \<in> set (snd (mds ! u))"
    unfolding createGraph_edges[OF cg un] by auto
  then show ?thesis
    unfolding depends_on_def by (intro CollectI exI[of _ "name (fst (mds ! d))"] exI[of _ "mds ! u"]) simp
qed

lemma trancl_edges_depends_on:
  assumes cg: "createGraph mds = Some g0" and un: "unique_names mds"
    and e: "(a, b) \<in> (edges g0)\<^sup>+"
  shows "(name (fst (mds ! a)), name (fst (mds ! b))) \<in> (depends_on mds)\<^sup>+"
  using e
proof (induction rule: trancl_induct)
  case (base y)
  then show ?case using edges_depends_on[OF cg un] by blast
next
  case (step y z)
  from edges_depends_on[OF cg un step(2)] step.IH show ?case by (rule trancl_into_trancl[rotated])
qed

lemma acyclic_edges:
  assumes cg: "createGraph mds = Some g0" and un: "unique_names mds"
    and ac: "acyclic (depends_on mds)"
  shows "acyclic (edges g0)"
  using trancl_edges_depends_on[OF cg un] ac by (fastforce simp: acyclic_def)

lemma depends_on_edges:
  assumes cg: "createGraph mds = Some g0" and un: "unique_names mds"
    and e: "(a, b) \<in> depends_on mds"
  shows "\<exists>d u. d < length mds \<and> u < length mds \<and> a = name (fst (mds ! d)) \<and>
               b = name (fst (mds ! u)) \<and> (d, u) \<in> edges g0"
proof -
  from e obtain r where r: "r \<in> set mds" "a \<in> set (snd r)" "b = name (fst r)"
    by (auto simp: depends_on_def)
  from r(1) obtain u where u: "u < length mds" "mds ! u = r" by (auto simp: in_set_conv_nth)
  have "resolves mds" using cg createGraph_None_iff[of mds] by auto
  with r(1,2) have "a \<in> (\<lambda>r'. name (fst r')) ` set mds" unfolding resolves_def by blast
  then obtain r' where "r' \<in> set mds" "a = name (fst r')" by blast
  then obtain d where d: "d < length mds" "a = name (fst (mds ! d))"
    by (auto simp: in_set_conv_nth)
  have "(d, u) \<in> edges g0"
    unfolding createGraph_edges[OF cg un] using d u r(2) by auto
  with d u r(3) show ?thesis by blast
qed

lemma unique_names_inj:
  assumes un: "unique_names mds" and "i < length mds" "j < length mds"
    and "name (fst (mds ! i)) = name (fst (mds ! j))"
  shows "i = j"
  using nth_eq_iff_index_eq[of "map (\<lambda>r. name (fst r)) mds" i j] assms
  by (simp add: unique_names_def)

lemma trancl_depends_on_edges:
  assumes cg: "createGraph mds = Some g0" and un: "unique_names mds"
    and e: "(a, b) \<in> (depends_on mds)\<^sup>+"
  shows "\<exists>d u. d < length mds \<and> u < length mds \<and> a = name (fst (mds ! d)) \<and>
               b = name (fst (mds ! u)) \<and> (d, u) \<in> (edges g0)\<^sup>+"
  using e
proof (induction rule: trancl_induct)
  case (base y)
  from depends_on_edges[OF cg un base] show ?case by blast
next
  case (step y z)
  from step.IH obtain d u where du: "d < length mds" "u < length mds"
    "a = name (fst (mds ! d))" "y = name (fst (mds ! u))" "(d, u) \<in> (edges g0)\<^sup>+" by blast
  from depends_on_edges[OF cg un step(2)] obtain u' w where w: "u' < length mds" "w < length mds"
    "y = name (fst (mds ! u'))" "z = name (fst (mds ! w))" "(u', w) \<in> edges g0" by blast
  have "u' = u" using unique_names_inj[OF un w(1) du(2)] w(3) du(4) by simp
  with du(5) w(5) have "(d, w) \<in> (edges g0)\<^sup>+" by simp
  with du(1,3) w(2,4) show ?case by blast
qed

lemma cyclic_edges:
  assumes cg: "createGraph mds = Some g0" and un: "unique_names mds"
    and cyc: "\<not> acyclic (depends_on mds)"
  shows "\<not> acyclic (edges g0)"
proof -
  from cyc obtain a where "(a, a) \<in> (depends_on mds)\<^sup>+" by (auto simp: acyclic_def)
  from trancl_depends_on_edges[OF cg un this] obtain d u where du:
    "d < length mds" "u < length mds" "a = name (fst (mds ! d))" "a = name (fst (mds ! u))"
    "(d, u) \<in> (edges g0)\<^sup>+" by blast
  have "d = u" using unique_names_inj[OF un du(1,2)] du(3,4) by simp
  with du(5) show ?thesis by (auto simp: acyclic_def)
qed

text \<open>What \<open>sort\<close> returns, in terms of the state in which its loop ends.\<close>

lemma sort_modules_final:
  assumes cg: "createGraph mds = Some g0" and un: "unique_names mds"
  obtains g sm ps where
    "sort_loop pick g0 (initial_vertices g0) [] = (g, sm)"
    "loop_inv g0 ps g [] sm"
    "sort_modules pick mds = (if (\<exists>m \<in> set g. adjList m \<noteq> []) then None else Some sm)"
proof -
  obtain g sm where l: "sort_loop pick g0 (initial_vertices g0) [] = (g, sm)"
    by (cases "sort_loop pick g0 (initial_vertices g0) []") auto
  from sort_loop_inv[OF createGraph_wf[OF cg un] loop_inv_initial, of pick]
  obtain ps where "loop_inv g0 ps g [] sm" unfolding l by auto
  moreover have "sort_modules pick mds = (if (\<exists>m \<in> set g. adjList m \<noteq> []) then None else Some sm)"
    by (simp add: sort_modules_def cg l)
  ultimately show ?thesis using l that by blast
qed

lemma sort_modules_unresolved:
  assumes "\<not> resolves mds"
  shows "sort_modules pick mds = None"
  using assms createGraph_None_iff[of mds] by (simp add: sort_modules_def)

lemma sort_modules_cyclic:
  assumes un: "unique_names mds" and cyc: "\<not> acyclic (depends_on mds)"
  shows "sort_modules pick mds = None"
proof (cases "createGraph mds")
  case None
  then show ?thesis by (simp add: sort_modules_def)
next
  case (Some g0)
  from sort_modules_final[OF Some un, of pick] obtain g sm ps where f:
    "loop_inv g0 ps g [] sm"
    "sort_modules pick mds = (if (\<exists>m \<in> set g. adjList m \<noteq> []) then None else Some sm)"
    by blast
  from final_cyclic_fails[OF f(1) cyclic_edges[OF Some un cyc]] f(2) show ?thesis by simp
qed

lemma sort_modules_acyclic:
  assumes un: "unique_names mds" and res: "resolves mds" and ac: "acyclic (depends_on mds)"
  shows "\<exists>sm. sort_modules pick mds = Some sm"
proof -
  from res obtain g0 where cg: "createGraph mds = Some g0"
    using createGraph_None_iff[of mds] by auto
  from sort_modules_final[OF cg un, of pick] obtain g sm ps where f:
    "loop_inv g0 ps g [] sm"
    "sort_modules pick mds = (if (\<exists>m \<in> set g. adjList m \<noteq> []) then None else Some sm)"
    by blast
  have "set ps = {..<length g0}"
    using createGraph_wf[OF cg un] f(1) acyclic_edges[OF cg un ac]
    by (rule final_acyclic_all_popped)
  then have "\<forall>m \<in> set g. adjList m = []" using final_success_iff[OF f(1)] by simp
  with f(2) show ?thesis by simp
qed

lemma sort_modules_sound:
  assumes un: "unique_names mds" and s: "sort_modules pick mds = Some sm"
  shows "resolves mds" and "distinct sm" and "set sm = fst ` set mds"
    and "dependency_order mds sm"
proof -
  show res: "resolves mds"
    using s createGraph_None_iff[of mds] by (auto simp: sort_modules_def split: option.splits)
  then obtain g0 where cg: "createGraph mds = Some g0"
    using createGraph_None_iff[of mds] by auto
  from sort_modules_final[OF cg un, of pick] obtain g sm' ps where f:
    "loop_inv g0 ps g [] sm'"
    "sort_modules pick mds = (if (\<exists>m \<in> set g. adjList m \<noteq> []) then None else Some sm')"
    by blast
  from f(2) s have empty: "\<forall>m \<in> set g. adjList m = []" and sm': "sm' = sm"
    by (auto split: if_splits)
  have all: "set ps = {..<length mds}"
    using final_success_iff[OF f(1)] empty createGraph_Some(1)[OF cg] by simp
  have dps: "distinct ps" using f(1) by (simp add: loop_inv_def)
  have sm: "sm = map (\<lambda>v. fst (mds ! v)) ps"
  proof -
    have "sm = map (\<lambda>v. vertex_value (g0 ! v)) ps" using f(1) sm' by (simp add: loop_inv_def)
    also have "\<dots> = map (\<lambda>v. fst (mds ! v)) ps"
      using all createGraph_Some(2)[OF cg] by (intro map_cong) auto
    finally show ?thesis .
  qed
  have ord: "\<And>i. i < length ps \<Longrightarrow> deps_of g0 (ps ! i) \<subseteq> set (take i ps)"
    using f(1) by (simp add: loop_inv_def)
  have dm: "distinct (map fst mds)"
    using un distinct_names_modules by (simp add: unique_names_def)
  have "inj_on (\<lambda>v. fst (mds ! v)) (set ps)"
    unfolding all using nth_eq_iff_index_eq[OF dm] by (auto simp: inj_on_def)
  with dps show "distinct sm" unfolding sm by (simp add: distinct_map)
  have "set sm = (\<lambda>v. fst (mds ! v)) ` {..<length mds}" unfolding sm using all by simp
  also have "\<dots> = fst ` set mds"
  proof -
    have "set mds = set (map ((!) mds) [0..<length mds])" by (simp only: map_nth)
    also have "\<dots> = (\<lambda>v. mds ! v) ` {..<length mds}" by (simp add: lessThan_atLeast0)
    finally show ?thesis by (simp add: image_image)
  qed
  finally show "set sm = fst ` set mds" .
  show "dependency_order mds sm"
    unfolding dependency_order_def
  proof (intro ballI)
    fix r d assume r: "r \<in> set mds" and d: "d \<in> set (snd r)"
    from r obtain u where u: "u < length mds" "mds ! u = r" by (auto simp: in_set_conv_nth)
    from res r d have "d \<in> (\<lambda>r'. name (fst r')) ` set mds" unfolding resolves_def by blast
    then obtain r' where "r' \<in> set mds" "d = name (fst r')" by blast
    then obtain k where k: "k < length mds" "d = name (fst (mds ! k))"
      by (auto simp: in_set_conv_nth)
    have ku: "k \<in> deps_of g0 u"
      unfolding deps_of_edges createGraph_edges[OF cg un] using k u d by auto
    from u(1) all have "u \<in> set ps" by simp
    then obtain j where j: "j < length ps" "ps ! j = u"
      by (auto simp: in_set_conv_nth)
    from ord[OF j(1)] ku j(2) have "k \<in> set (take j ps)" by auto
    then obtain i where i: "i < j" "ps ! i = k" using j(1) by (auto simp: in_set_conv_nth)
    have "sm ! i = fst (mds ! k)" "sm ! j = fst r" using i j u by (simp_all add: sm)
    moreover have "j < length sm" using j by (simp add: sm)
    ultimately have "precedes sm (fst (mds ! k)) (fst r)"
      unfolding precedes_def using i(1) by blast
    moreover have "fst (mds ! k) \<in> set sm" using \<open>sm ! i = fst (mds ! k)\<close> i(1) \<open>j < length sm\<close>
      by (metis less_trans nth_mem)
    ultimately show "\<exists>dm \<in> set sm. name dm = d \<and> precedes sm dm (fst r)" using k(2) by blast
  qed
qed

section \<open>Hook calls, the registry invariant and start\<close>

lemma init_calls_append: "init_calls (xs @ ys) = init_calls xs @ init_calls ys"
  by (induction xs rule: init_calls.induct) simp_all

lemma halt_calls_append: "halt_calls (xs @ ys) = halt_calls xs @ halt_calls ys"
  by (induction xs rule: halt_calls.induct) simp_all

lemma calls_map:
  "init_calls (map Init ms) = ms" "halt_calls (map Init ms) = []"
  "init_calls (map Tick ms) = []" "halt_calls (map Tick ms) = []"
  "init_calls (map Halt ms) = []" "halt_calls (map Halt ms) = ms"
  by (induction ms) simp_all

lemma tick_loop_calls:
  "tick_loop sm loads = Some hooks \<Longrightarrow> init_calls hooks = [] \<and> halt_calls hooks = []"
proof (induction loads arbitrary: hooks)
  case Nil
  then show ?case by simp
next
  case (Cons st loads)
  then show ?case
    by (auto simp: init_calls_append halt_calls_append calls_map split: if_splits)
qed

lemma tick_loop_ends:
  "\<exists>st \<in> set loads. st \<noteq> RUNNING \<Longrightarrow> \<exists>hooks. tick_loop sm loads = Some hooks"
  by (induction loads) auto

lemma distinct_swap_pop:
  assumes "distinct xs"
  shows "distinct (swap_pop i xs)"
proof (cases "i < length xs - 1")
  case True
  then have "swap_pop i xs = (butlast xs)[i := last xs]"
    by (simp add: swap_pop_eq butlast_list_update)
  moreover have "distinct (butlast xs)" using assms by (rule distinct_butlast)
  moreover have "last xs \<notin> set (butlast xs)"
    using assms True by (cases xs rule: rev_cases) auto
  ultimately show ?thesis by (simp add: distinct_list_update)
next
  case False
  have "xs[i := last xs] = xs"
  proof (cases "i < length xs")
    case True
    with False have "i = length xs - 1" "xs \<noteq> []" by auto
    then have "last xs = xs ! i" by (simp add: last_conv_nth)
    then show ?thesis by simp
  next
    case False
    then have "length xs \<le> i" by simp
    then show ?thesis by (rule list_update_beyond)
  qed
  then show ?thesis using assms by (simp add: swap_pop_eq distinct_butlast)
qed

lemma unique_names_modules:
  "consistent p \<Longrightarrow>
     unique_names (modulesAndDependencies p) \<longleftrightarrow> distinct (map name (modules p))"
proof -
  assume "consistent p"
  then have "map fst (modulesAndDependencies p) = modules p" by (simp add: consistent_map)
  moreover have "map name (map fst (modulesAndDependencies p)) =
      map (\<lambda>r. name (fst r)) (modulesAndDependencies p)" by simp
  ultimately have "map name (modules p) = map (\<lambda>r. name (fst r)) (modulesAndDependencies p)"
    by simp
  then show ?thesis by (simp add: unique_names_def)
qed

lemma registry_inv_new: "registry_inv KernelImpl_new"
  by (simp add: registry_inv_def consistent_def unique_names_def KernelImpl_new_def)

lemma registry_inv_add:
  assumes "registry_inv p"
  shows "registry_inv (snd (add m ds p))"
proof -
  have c: "consistent p" and d: "distinct (map name (modules p))"
    using assms unique_names_modules by (auto simp: registry_inv_def)
  have c': "consistent (snd (add m ds p))" using c by (rule consistent_add)
  have "distinct (map name (modules (snd (add m ds p))))"
    using d by (auto simp: add_def find_module_def find_None_iff)
  with c' show ?thesis using unique_names_modules by (simp add: registry_inv_def)
qed

lemma registry_inv_remove:
  assumes "registry_inv p"
  shows "registry_inv (snd (remove nm p))"
proof -
  have c: "consistent p" and d: "distinct (map name (modules p))"
    using assms unique_names_modules by (auto simp: registry_inv_def)
  have c': "consistent (snd (remove nm p))" using c by (rule consistent_remove)
  have "distinct (map name (modules (snd (remove nm p))))"
    using d distinct_swap_pop[of "map name (modules p)"]
    by (auto simp: remove_def map_swap_pop split: option.splits)
  with c' show ?thesis using unique_names_modules by (simp add: registry_inv_def)
qed

lemma start_terminates:
  assumes "kernelThread p = Some (Thread True)"
  shows "start pick p = Inl Terminate"
  using assms by (simp add: start_def reset_terminates_def)

lemma start_fails:
  assumes "kernelThread p = None"
    and "sort_modules pick (modulesAndDependencies p) = None"
  shows "start pick p =
           Inr (False, p\<lparr>status := IDLE, kernelThread := Some (Thread True)\<rparr>, None, [])"
  using assms by (simp add: start_def reset_terminates_def KernelImpl_start_up_def)

lemma start_returns:
  assumes "start pick p = Inr (b, p', worker, hooks)"
  shows "(p', worker, hooks) =
           KernelImpl_start_up pick (p\<lparr>status := STARTING, kernelThread := Some (Thread True)\<rparr>)"
    and "b = (status p' = RUNNING)"
  using assms by (auto simp: start_def split: if_splits prod.splits)

lemma start_True:
  assumes "start pick p = Inr (True, p', worker, hooks)"
  shows "\<exists>sm. sort_modules pick (modulesAndDependencies p) = Some sm \<and> worker = Some sm \<and>
           hooks = map Init sm \<and>
           p' = p\<lparr>status := RUNNING, kernelThread := Some (Thread True)\<rparr>"
proof (cases "sort_modules pick (modulesAndDependencies p)")
  case None
  with start_returns[OF assms] show ?thesis by (auto simp: KernelImpl_start_up_def)
next
  case (Some sm)
  with start_returns(1)[OF assms] have
    "worker = Some sm" "hooks = map Init sm"
    "p' = p\<lparr>status := RUNNING, kernelThread := Some (Thread True)\<rparr>"
    by (simp_all add: KernelImpl_start_up_def)
  with Some show ?thesis by simp
qed

lemma registry_inv_status [simp]:
  "registry_inv (p\<lparr>status := st\<rparr>) = registry_inv p"
  "registry_inv (p\<lparr>kernelThread := th\<rparr>) = registry_inv p"
  by (simp_all add: registry_inv_def consistent_def)

lemma registry_inv_start:
  assumes "registry_inv p" and "start pick p = Inr (b, p', worker, hooks)"
  shows "registry_inv p'"
proof -
  from start_returns(1)[OF assms(2)] have
    "p' = p\<lparr>status := IDLE, kernelThread := Some (Thread True)\<rparr> \<or>
     p' = p\<lparr>status := RUNNING, kernelThread := Some (Thread True)\<rparr>"
    by (auto simp: KernelImpl_start_up_def split: option.splits)
  with assms(1) show ?thesis by auto
qed

lemma reachable_registry_inv: "reachable p \<Longrightarrow> registry_inv p"
proof (induction rule: reachable.induct)
  case new
  show ?case by (rule registry_inv_new)
next
  case (add p m dependencies)
  then show ?case by (simp add: registry_inv_add)
next
  case (remove p nm)
  then show ?case by (simp add: registry_inv_remove)
next
  case (stop p)
  then show ?case by (simp add: stop_def)
next
  case (start p pick b p' worker hooks)
  then show ?case using registry_inv_start by blast
qed

section \<open>The order computed by sort\<close>

text \<open>
  Claim C1.  For a dependency specification with names without repetition (as in
  every registry), in which every declared dependency name is the name of a registered
  module and whose dependency relation has no cycle, \<open>sort\<close> succeeds, whatever the
  \<open>unordered_set\<close> yields at \<open>begin()\<close>; the order it returns holds every registered module
  exactly once, and every dependency of a module stands strictly before the module.
\<close>

theorem sort_topological:
  assumes "unique_names mds" and "resolves mds" and "acyclic (depends_on mds)"
  shows "\<exists>sm. sort_modules pick mds = Some sm \<and> distinct sm \<and> set sm = fst ` set mds \<and>
              dependency_order mds sm"
proof -
  from sort_modules_acyclic[OF assms, of pick] obtain sm where
    sm: "sort_modules pick mds = Some sm" by blast
  from sort_modules_sound(2-4)[OF assms(1) sm] sm show ?thesis by blast
qed

theorem sort_topological_witness:
  "unique_names [(modA, []), (modB, [''A'']), (modC, [''A'', ''B''])]
   \<and> resolves [(modA, []), (modB, [''A'']), (modC, [''A'', ''B''])]
   \<and> acyclic (depends_on [(modA, []), (modB, [''A'']), (modC, [''A'', ''B''])])
   \<and> (\<exists>sm. sort_modules first_begin [(modA, []), (modB, [''A'']), (modC, [''A'', ''B''])]
              = Some sm \<and> distinct sm \<and>
            set sm = fst ` set [(modA, []), (modB, [''A'']), (modC, [''A'', ''B''])] \<and>
            dependency_order [(modA, []), (modB, [''A'']), (modC, [''A'', ''B''])] sm)"
proof -
  let ?mds = "[(modA, []), (modB, [''A'']), (modC, [''A'', ''B''])]"
  let ?rank = "\<lambda>nm. if nm = ''A'' then 3 else if nm = ''B'' then 2 else (1::nat)"
  have h1: "unique_names ?mds" by (simp add: unique_names_def)
  have h2: "resolves ?mds" by (simp add: resolves_def)
  have "?rank b < ?rank a" if "(a, b) \<in> depends_on ?mds" for a b
    using that by (auto simp: depends_on_def)
  then have h3: "acyclic (depends_on ?mds)" by (rule acyclicI_order)
  from sort_topological[OF h1 h2 h3, of first_begin] h1 h2 h3 show ?thesis by blast
qed

section \<open>start on a registry that cannot be sorted\<close>

lemma start_cyclic_first:
  assumes "kernelThread p = None"
    and "unique_names (modulesAndDependencies p)"
    and "\<not> acyclic (depends_on (modulesAndDependencies p))"
  shows "start pick p =
           Inr (False, p\<lparr>status := IDLE, kernelThread := Some (Thread True)\<rparr>, None, [])"
  using assms(1) sort_modules_cyclic[OF assms(2,3)] by (rule start_fails)

lemma start_unknown_dependency_first:
  assumes "kernelThread p = None"
    and "\<exists>r \<in> set (modulesAndDependencies p). \<exists>nm \<in> set (snd r).
             nm \<notin> (\<lambda>r'. name (fst r')) ` set (modulesAndDependencies p)"
  shows "start pick p =
           Inr (False, p\<lparr>status := IDLE, kernelThread := Some (Thread True)\<rparr>, None, [])"
proof -
  from assms(2) have "\<not> resolves (modulesAndDependencies p)" by (auto simp: resolves_def)
  then have "sort_modules pick (modulesAndDependencies p) = None"
    by (rule sort_modules_unresolved)
  with assms(1) show ?thesis by (rule start_fails)
qed

lemma cycle_AB: "\<not> acyclic (depends_on [(modA, [''B'']), (modB, [''A''])])"
proof -
  let ?mds = "[(modA, [''B'']), (modB, [''A''])]"
  have ab: "(''A'', ''B'') \<in> depends_on ?mds"
    unfolding depends_on_def
    by (intro CollectI exI[of _ "''A''"] exI[of _ "(modB, [''A''])"]) simp
  have ba: "(''B'', ''A'') \<in> depends_on ?mds"
    unfolding depends_on_def
    by (intro CollectI exI[of _ "''B''"] exI[of _ "(modA, [''B''])"]) simp
  from ab ba have "(''A'', ''A'') \<in> (depends_on ?mds)\<^sup>+"
    by (rule trancl.intros(2)[OF r_into_trancl])
  then show ?thesis by (auto simp: acyclic_def)
qed

text \<open>
  Claim C2.  A kernel gets the registrations \<open>A\<close> depends on \<open>B\<close> and \<open>B\<close> depends on \<open>A\<close>.
  Its first \<open>start\<close> returns \<open>false\<close> with status \<open>IDLE\<close> and no hook called.  The registry
  still has the cycle; a second \<open>start\<close> does not return \<open>false\<close>: \<open>reset\<close> deletes the
  joinable thread object of the first call and the program ends in \<open>std::terminate\<close>.
\<close>

theorem start_cyclic_second_call:
  "snd (add modB [''A''] (snd (add modA [''B''] KernelImpl_new))) = kernel_cycle IDLE None
   \<and> start first_begin (kernel_cycle IDLE None)
       = Inr (False, kernel_cycle IDLE (Some (Thread True)), None, [])
   \<and> \<not> acyclic (depends_on (modulesAndDependencies (kernel_cycle IDLE (Some (Thread True)))))
   \<and> start first_begin (kernel_cycle IDLE (Some (Thread True))) = Inl Terminate"
proof -
  have "snd (add modB [''A''] (snd (add modA [''B''] KernelImpl_new))) = kernel_cycle IDLE None"
    by (simp add: add_def find_module_def KernelImpl_new_def)
  moreover have "start first_begin (kernel_cycle IDLE None)
       = Inr (False, kernel_cycle IDLE (Some (Thread True)), None, [])"
    using start_cyclic_first[of "kernel_cycle IDLE None" first_begin] cycle_AB
    by (simp add: unique_names_def)
  moreover have "start first_begin (kernel_cycle IDLE (Some (Thread True))) = Inl Terminate"
    by (simp add: start_terminates)
  ultimately show ?thesis using cycle_AB by simp
qed

text \<open>
  Claim C5.  A kernel gets one registration, \<open>A\<close> depends on \<open>Z\<close>, and no module \<open>Z\<close>.  Its
  first \<open>start\<close> returns \<open>false\<close> with status \<open>IDLE\<close> and no hook called.  The dependency is
  still unknown; a second \<open>start\<close> does not return \<open>false\<close>: it ends the program in
  \<open>std::terminate\<close>, as for claim C2.
\<close>

theorem start_unknown_dependency_second_call:
  "snd (add modA [''Z''] KernelImpl_new) = kernel_unknown IDLE None
   \<and> start first_begin (kernel_unknown IDLE None)
       = Inr (False, kernel_unknown IDLE (Some (Thread True)), None, [])
   \<and> ''Z'' \<notin> name ` set (modules (kernel_unknown IDLE (Some (Thread True))))
   \<and> start first_begin (kernel_unknown IDLE (Some (Thread True))) = Inl Terminate"
proof -
  have "snd (add modA [''Z''] KernelImpl_new) = kernel_unknown IDLE None"
    by (simp add: add_def find_module_def KernelImpl_new_def)
  moreover have "start first_begin (kernel_unknown IDLE None)
       = Inr (False, kernel_unknown IDLE (Some (Thread True)), None, [])"
    using start_unknown_dependency_first[of "kernel_unknown IDLE None" first_begin] by simp
  moreover have "start first_begin (kernel_unknown IDLE (Some (Thread True))) = Inl Terminate"
    by (simp add: start_terminates)
  ultimately show ?thesis by simp
qed

section \<open>A start that returns true, and the shutdown of its worker\<close>

text \<open>
  Claim C3.  If \<open>start\<close> returns \<open>true\<close> on a registry as \<open>add\<close> and \<open>remove\<close> keep it
  (\<open>registry_inv\<close>, which holds in every state a kernel can be in, lemma
  \<open>reachable_registry_inv\<close>), the hooks called by then are \<open>init\<close> calls, one for every
  registered module and none twice, every dependency of a module before the module,
  and the status is \<open>RUNNING\<close>.
\<close>

theorem start_true_inits:
  assumes "registry_inv p" and "start pick p = Inr (True, p', worker, hooks)"
  shows "\<exists>sm. hooks = map Init sm \<and> distinct sm \<and> set sm = set (modules p) \<and>
              dependency_order (modulesAndDependencies p) sm \<and> status p' = RUNNING"
proof -
  from start_True[OF assms(2)] obtain sm where sm:
    "sort_modules pick (modulesAndDependencies p) = Some sm" "hooks = map Init sm"
    "p' = p\<lparr>status := RUNNING, kernelThread := Some (Thread True)\<rparr>" by blast
  have un: "unique_names (modulesAndDependencies p)" and c: "consistent p"
    using assms(1) by (simp_all add: registry_inv_def)
  have "fst ` set (modulesAndDependencies p) = set (modules p)"
    using c by (simp add: consistent_map flip: set_map)
  with sort_modules_sound(2-4)[OF un sm(1)] sm(2,3) show ?thesis by auto
qed

lemma start_kernel_AB:
  "start first_begin (kernel_AB IDLE None) =
     Inr (True, kernel_AB RUNNING (Some (Thread True)), Some [modA, modB], [Init modA, Init modB])"
  by code_simp

lemma registry_inv_kernel_AB: "registry_inv (kernel_AB IDLE None)"
  by (simp add: registry_inv_def consistent_map unique_names_def)

lemma reachable_kernel_AB: "reachable (kernel_AB IDLE None)"
proof -
  have "snd (add modB [''A''] (snd (add modA [] KernelImpl_new))) = kernel_AB IDLE None"
    by (simp add: add_def find_module_def KernelImpl_new_def)
  then show ?thesis
    using reachable.add[OF reachable.add[OF reachable.new], of modB "[''A'']" modA "[]"]
    by simp
qed

theorem start_true_inits_witness:
  "registry_inv (kernel_AB IDLE None)
   \<and> start first_begin (kernel_AB IDLE None) =
       Inr (True, kernel_AB RUNNING (Some (Thread True)), Some [modA, modB],
            [Init modA, Init modB])
   \<and> (\<exists>sm. [Init modA, Init modB] = map Init sm \<and> distinct sm \<and>
         set sm = set (modules (kernel_AB IDLE None)) \<and>
         dependency_order (modulesAndDependencies (kernel_AB IDLE None)) sm \<and>
         status (kernel_AB RUNNING (Some (Thread True))) = RUNNING)"
  using start_true_inits[OF registry_inv_kernel_AB start_kernel_AB]
    registry_inv_kernel_AB start_kernel_AB
  by blast

text \<open>
  Claim C4.  The worker whose \<open>start\<close> returned \<open>true\<close> called \<open>init\<close> on the sorted
  modules.  If one of the loads of its tick loop observes a status other than
  \<open>RUNNING\<close> (as after \<open>stop\<close>), the loop ends and the worker returns; in all the hooks it
  called, the \<open>halt\<close> calls are the \<open>init\<close> calls in reverse order, and no module is
  halted twice.
\<close>

theorem halt_reverse_order:
  assumes "registry_inv p" and "start pick p = Inr (True, p', Some sm, inits)"
    and "\<exists>st \<in> set loads. st \<noteq> RUNNING"
  shows "\<exists>rest. KernelImpl_start_run sm loads = Some rest \<and>
           init_calls (inits @ rest) = sm \<and>
           halt_calls (inits @ rest) = rev (init_calls (inits @ rest)) \<and>
           distinct (halt_calls (inits @ rest))"
proof -
  from start_True[OF assms(2)] have sm:
    "sort_modules pick (modulesAndDependencies p) = Some sm" "inits = map Init sm" by auto
  have un: "unique_names (modulesAndDependencies p)"
    using assms(1) by (simp add: registry_inv_def)
  have d: "distinct sm" using sort_modules_sound(2)[OF un sm(1)] .
  from tick_loop_ends[OF assms(3), of sm] obtain ticks where
    t: "tick_loop sm loads = Some ticks" by blast
  have run: "KernelImpl_start_run sm loads = Some (ticks @ map Halt (rev sm))"
    by (simp add: KernelImpl_start_run_def t)
  have "init_calls (inits @ ticks @ map Halt (rev sm)) = sm"
    "halt_calls (inits @ ticks @ map Halt (rev sm)) = rev sm"
    using tick_loop_calls[OF t] by (simp_all add: init_calls_append halt_calls_append calls_map sm(2))
  with run d show ?thesis by simp
qed

theorem halt_reverse_order_witness:
  "registry_inv (kernel_AB IDLE None)
   \<and> start first_begin (kernel_AB IDLE None) =
       Inr (True, kernel_AB RUNNING (Some (Thread True)), Some [modA, modB],
            [Init modA, Init modB])
   \<and> (\<exists>st \<in> set [RUNNING, status (stop (kernel_AB RUNNING (Some (Thread True))))].
         st \<noteq> RUNNING)
   \<and> (\<exists>rest. KernelImpl_start_run [modA, modB]
                 [RUNNING, status (stop (kernel_AB RUNNING (Some (Thread True))))] = Some rest \<and>
         init_calls ([Init modA, Init modB] @ rest) = [modA, modB] \<and>
         halt_calls ([Init modA, Init modB] @ rest)
           = rev (init_calls ([Init modA, Init modB] @ rest)) \<and>
         distinct (halt_calls ([Init modA, Init modB] @ rest)))"
proof -
  have h3: "\<exists>st \<in> set [RUNNING, status (stop (kernel_AB RUNNING (Some (Thread True))))].
      st \<noteq> RUNNING"
    by (simp add: stop_def)
  from halt_reverse_order[OF registry_inv_kernel_AB start_kernel_AB h3]
    registry_inv_kernel_AB start_kernel_AB h3
  show ?thesis by blast
qed

section \<open>Properties of the registry operations\<close>

text \<open>
  Claim C6.  While the status is not \<open>IDLE\<close>, \<open>add\<close> returns \<open>false\<close> and \<open>remove\<close>
  returns the null pointer, and both leave the whole state, so also both vectors of
  the registry, as it was.
\<close>

theorem add_remove_not_idle:
  assumes "status p \<noteq> IDLE"
  shows "add m dependencies p = (False, p) \<and> remove nm p = (None, p)"
  using assms by (simp add: add_def remove_def)

theorem add_remove_not_idle_witness:
  "status (kernel_AB RUNNING (Some (Thread True))) \<noteq> IDLE
   \<and> add modC [''A''] (kernel_AB RUNNING (Some (Thread True)))
       = (False, kernel_AB RUNNING (Some (Thread True)))
   \<and> remove ''A'' (kernel_AB RUNNING (Some (Thread True)))
       = (None, kernel_AB RUNNING (Some (Thread True)))"
  using add_remove_not_idle[of "kernel_AB RUNNING (Some (Thread True))" modC "[''A'']" "''A''"]
  by simp

text \<open>
  Claim C7.  If a module with the name of the new module is registered, \<open>add\<close> returns
  \<open>false\<close> and the state, with the registration of that name, is unchanged.
\<close>

theorem add_existing_name:
  assumes "\<exists>m' \<in> set (modules p). name m' = name m"
  shows "add m dependencies p = (False, p)"
proof -
  from assms have "find_module (name m) p \<noteq> None"
    by (auto simp: find_module_def find_None_iff)
  then show ?thesis by (simp add: add_def)
qed

theorem add_existing_name_witness:
  "(\<exists>m' \<in> set (modules (kernel_AB IDLE None)). name m' = name (Module ''B'' 7))
   \<and> add (Module ''B'' 7) [] (kernel_AB IDLE None) = (False, kernel_AB IDLE None)"
  using add_existing_name[of "kernel_AB IDLE None" "Module ''B'' 7" "[]"]
  by simp

text \<open>
  Claim C9.  The two vectors \<open>modules\<close> and \<open>modulesAndDependencies\<close> have the same
  length and hold the same module at every index: this holds for a new kernel, \<open>add\<close>
  and \<open>remove\<close> keep it, and where it holds \<open>remove\<close> does not reach its
  internal-error branch.  So it holds in every state a kernel can be in, and there
  \<open>remove\<close> never reaches that branch.
\<close>

theorem parallel_vectors_invariant:
  "consistent KernelImpl_new \<and>
   (consistent p \<longrightarrow>
      consistent (snd (add m dependencies p)) \<and>
      consistent (snd (remove nm p)) \<and>
      \<not> remove_internal_error nm p) \<and>
   (reachable p \<longrightarrow> consistent p \<and> \<not> remove_internal_error nm p)"
proof -
  have "consistent KernelImpl_new" by (simp add: consistent_def KernelImpl_new_def)
  moreover have "consistent p \<longrightarrow>
      consistent (snd (add m dependencies p)) \<and>
      consistent (snd (remove nm p)) \<and>
      \<not> remove_internal_error nm p"
    using consistent_add[of p m dependencies] consistent_remove[of p nm]
      consistent_no_internal_error[of p nm]
    by simp
  moreover have "reachable p \<longrightarrow> consistent p \<and> \<not> remove_internal_error nm p"
    using reachable_registry_inv[of p] consistent_no_internal_error[of p nm]
    by (simp add: registry_inv_def)
  ultimately show ?thesis by simp
qed

theorem parallel_vectors_invariant_witness:
  "consistent (kernel_AB IDLE None) \<and> reachable (kernel_AB IDLE None)
   \<and> consistent (snd (add modC [''B''] (kernel_AB IDLE None)))
   \<and> consistent (snd (remove ''A'' (kernel_AB IDLE None)))
   \<and> \<not> remove_internal_error ''A'' (kernel_AB IDLE None)"
proof -
  have c: "consistent (kernel_AB IDLE None)" by (simp add: consistent_map)
  show ?thesis
    using c reachable_kernel_AB
      parallel_vectors_invariant[of "kernel_AB IDLE None" modC "[''B'']" "''A''"]
    by blast
qed

lemma createGraph_Nil: "createGraph [] = Some []"
  by (simp add: createGraph_def createGraph_vertices_def)

lemma sort_modules_Nil: "sort_modules pick [] = Some []"
  by (simp add: sort_modules_def createGraph_Nil initial_vertices_def sort_loop.simps)

lemma start_empty_registry_first:
  assumes "kernelThread p = None" and "modulesAndDependencies p = []"
  shows "createGraph (modulesAndDependencies p) = Some []
       \<and> sort_modules pick (modulesAndDependencies p) = Some []
       \<and> start pick p =
           Inr (True, p\<lparr>status := RUNNING, kernelThread := Some (Thread True)\<rparr>, Some [], [])"
  using assms
  by (simp add: createGraph_Nil sort_modules_Nil start_def reset_terminates_def
      KernelImpl_start_up_def)

text \<open>
  Claim C10.  On a new kernel, with no module registered, \<open>start\<close> returns \<open>true\<close> with the
  status \<open>RUNNING\<close> and no hook called.  After \<open>stop\<close> the kernel still has no module; a
  second \<open>start\<close> does not return \<open>true\<close>: it ends the program in \<open>std::terminate\<close>, as for
  claim C2.
\<close>

theorem start_empty_second_call:
  "start first_begin KernelImpl_new = Inr (True, kernel_empty RUNNING (Some (Thread True)), Some [], [])
   \<and> stop (kernel_empty RUNNING (Some (Thread True))) = kernel_empty IDLE (Some (Thread True))
   \<and> modules (kernel_empty IDLE (Some (Thread True))) = []
   \<and> start first_begin (kernel_empty IDLE (Some (Thread True))) = Inl Terminate"
proof -
  have "start first_begin KernelImpl_new =
      Inr (True, kernel_empty RUNNING (Some (Thread True)), Some [], [])"
    using start_empty_registry_first[of KernelImpl_new first_begin]
    by (simp add: KernelImpl_new_def)
  moreover have "start first_begin (kernel_empty IDLE (Some (Thread True))) = Inl Terminate"
    by (simp add: start_terminates)
  ultimately show ?thesis by (simp add: stop_def)
qed

section \<open>Repeated names in a dependency list\<close>

text \<open>The elements of a list in the order of their first occurrence.\<close>

fun first_occ :: "'a list \<Rightarrow> 'a list" where
  "first_occ [] = []"
| "first_occ (x # xs) = x # filter (\<lambda>y. y \<noteq> x) (first_occ xs)"

lemma set_first_occ: "set (first_occ xs) = set xs"
  by (induction xs) auto

lemma first_occ_filter: "first_occ (filter P xs) = filter P (first_occ xs)"
proof (induction xs)
  case Nil
  show ?case by simp
next
  case (Cons x xs)
  show ?case
  proof (cases "P x")
    case True
    then show ?thesis by (simp add: Cons.IH conj_commute)
  next
    case False
    have "filter P (filter (\<lambda>y. y \<noteq> x) (first_occ xs)) = filter P (first_occ xs)"
      using False by (auto simp: filter_filter intro: filter_cong)
    with False show ?thesis by (simp add: Cons.IH)
  qed
qed

lemma first_occ_append:
  "first_occ (xs @ ys) = first_occ xs @ filter (\<lambda>y. y \<notin> set xs) (first_occ ys)"
proof (induction xs)
  case Nil
  show ?case by simp
next
  case (Cons x xs)
  have "filter (\<lambda>y. y \<noteq> x) (filter (\<lambda>y. y \<notin> set xs) (first_occ ys)) =
      filter (\<lambda>y. y \<notin> set (x # xs)) (first_occ ys)"
    by (auto simp: filter_filter intro: filter_cong)
  then show ?case by (simp add: Cons.IH)
qed

lemma first_occ_replicate: "first_occ (replicate n v) = (if n = 0 then [] else [v])"
  by (induction n) auto

lemma fold_insert_vertex:
  "fold insert_vertex xs vs = vs @ filter (\<lambda>m. m \<notin> set vs) (first_occ xs)"
proof (induction xs arbitrary: vs)
  case Nil
  show ?case by simp
next
  case (Cons x xs)
  show ?case
  proof (cases "x \<in> set vs")
    case True
    have "filter (\<lambda>m. m \<notin> set vs) (filter (\<lambda>y. y \<noteq> x) (first_occ xs)) =
        filter (\<lambda>m. m \<notin> set vs) (first_occ xs)"
      using True by (auto simp: filter_filter intro: filter_cong)
    moreover have "fold insert_vertex (x # xs) vs = fold insert_vertex xs vs"
      using True by (simp add: insert_vertex_def)
    ultimately show ?thesis using True by (simp only: Cons.IH) simp
  next
    case False
    have "filter (\<lambda>m. m \<notin> set (vs @ [x])) (first_occ xs) =
        filter (\<lambda>m. m \<notin> set vs) (filter (\<lambda>y. y \<noteq> x) (first_occ xs))"
      by (auto simp: filter_filter intro: filter_cong)
    moreover have "fold insert_vertex (x # xs) vs = fold insert_vertex xs (vs @ [x])"
      using False by (simp add: insert_vertex_def)
    ultimately show ?thesis using False by (simp only: Cons.IH) simp
  qed
qed

lemma insert_unreferenced_filter:
  "insert_unreferenced g adj vs = fold insert_vertex (filter (\<lambda>m. \<not> referenced g m) adj) vs"
  unfolding insert_unreferenced_def by (induction adj arbitrary: vs) simp_all

lemma insert_unreferenced_closed:
  "insert_unreferenced g adj vs =
     vs @ filter (\<lambda>m. m \<notin> set vs) (filter (\<lambda>m. \<not> referenced g m) (first_occ adj))"
  by (simp add: insert_unreferenced_filter fold_insert_vertex first_occ_filter)

lemma erase_fold_filter:
  "fold (\<lambda>m vs'. removeAll m vs') ms vs = filter (\<lambda>v. v \<notin> set ms) vs"
proof (induction ms arbitrary: vs)
  case Nil
  show ?case by simp
next
  case (Cons m ms)
  have "filter (\<lambda>v. v \<notin> set ms) (removeAll m vs) = filter (\<lambda>v. v \<notin> set (m # ms)) vs"
    by (auto simp: removeAll_filter_not_eq filter_filter intro: filter_cong)
  then show ?case by (simp add: Cons.IH)
qed

lemma erase_all_filter:
  "fold (\<lambda>n vs. fold (\<lambda>m vs'. removeAll m vs') (adjList n) vs) g vs =
     filter (\<lambda>v. \<not> referenced g v) vs"
proof -
  have "fold (\<lambda>n vs. filter (\<lambda>v. v \<notin> set (adjList n)) vs) g vs =
      filter (\<lambda>v. \<not> referenced g v) vs"
  proof (induction g arbitrary: vs)
    case Nil
    show ?case by (simp add: referenced_def)
  next
    case (Cons n g)
    have "filter (\<lambda>v. \<not> referenced g v) (filter (\<lambda>v. v \<notin> set (adjList n)) vs) =
        filter (\<lambda>v. \<not> referenced (n # g) v) vs"
      by (auto simp: referenced_def filter_filter intro: filter_cong)
    then show ?case by (simp only: fold_simps Cons.IH)
  qed
  then show ?thesis by (simp only: erase_fold_filter)
qed

lemma initial_vertices_filter:
  "initial_vertices g = filter (\<lambda>v. \<not> referenced g v) [0..<length g]"
  by (simp add: initial_vertices_def erase_all_filter)

text \<open>Two graphs whose adjacency lists differ only in repetitions.\<close>

definition same_adj :: "'a Vertex list \<Rightarrow> 'a Vertex list \<Rightarrow> bool" where
  "same_adj g g' \<longleftrightarrow>
     length g = length g' \<and>
     (\<forall>v < length g. vertex_value (g ! v) = vertex_value (g' ! v) \<and>
        first_occ (adjList (g ! v)) = first_occ (adjList (g' ! v)))"

lemma same_adj_set:
  assumes "same_adj g g'" "v < length g"
  shows "set (adjList (g ! v)) = set (adjList (g' ! v))"
proof -
  have "first_occ (adjList (g ! v)) = first_occ (adjList (g' ! v))"
    using assms by (simp add: same_adj_def)
  then have "set (first_occ (adjList (g ! v))) = set (first_occ (adjList (g' ! v)))" by simp
  then show ?thesis by (simp only: set_first_occ)
qed

lemma same_adj_referenced:
  assumes "same_adj g g'"
  shows "referenced g m = referenced g' m"
proof -
  have "length g = length g'" using assms by (simp add: same_adj_def)
  then have "deps_of g m = deps_of g' m"
    using same_adj_set[OF assms] by (auto simp: deps_of_def)
  then show ?thesis by (simp add: referenced_iff)
qed

lemma same_adj_initial:
  assumes "same_adj g g'"
  shows "initial_vertices g = initial_vertices g'"
proof -
  have "length g = length g'" using assms by (simp add: same_adj_def)
  then show ?thesis
    using same_adj_referenced[OF assms] by (simp add: initial_vertices_filter)
qed

lemma same_adj_clear:
  assumes "same_adj g g'"
  shows "same_adj (g[v := (g ! v)\<lparr>adjList := []\<rparr>]) (g'[v := (g' ! v)\<lparr>adjList := []\<rparr>])"
proof (cases "v < length g")
  case True
  with assms show ?thesis by (auto simp: same_adj_def nth_list_update)
next
  case False
  with assms show ?thesis by (simp add: same_adj_def)
qed

lemma same_adj_nonempty:
  assumes "same_adj g g'"
  shows "(\<exists>m \<in> set g. adjList m \<noteq> []) = (\<exists>m \<in> set g'. adjList m \<noteq> [])"
proof -
  have len: "length g = length g'" using assms by (simp add: same_adj_def)
  have e: "adjList (g ! v) = [] \<longleftrightarrow> adjList (g' ! v) = []" if "v < length g" for v
    using same_adj_set[OF assms that] by (metis set_empty)
  have "(\<exists>m \<in> set g. adjList m \<noteq> []) = (\<exists>v < length g. adjList (g ! v) \<noteq> [])"
    by (metis in_set_conv_nth)
  also have "\<dots> = (\<exists>v < length g'. adjList (g' ! v) \<noteq> [])"
    using e len by auto
  also have "\<dots> = (\<exists>m \<in> set g'. adjList m \<noteq> [])"
    by (metis in_set_conv_nth)
  finally show ?thesis .
qed

lemma sort_loop_same_adj:
  assumes "same_adj g g'"
  shows "snd (sort_loop pick g vs sm) = snd (sort_loop pick g' vs sm) \<and>
         same_adj (fst (sort_loop pick g vs sm)) (fst (sort_loop pick g' vs sm))"
  using assms
proof (induction pick g vs sm arbitrary: g' rule: sort_loop.induct)
  case (1 pick g vs sm)
  have len: "length g = length g'" using "1.prems" by (simp add: same_adj_def)
  show ?case
  proof (cases "vs = []")
    case True
    with "1.prems" show ?thesis by (simp add: sort_loop.simps)
  next
    case False
    define v where "v = vs ! (pick (length sm) vs mod length vs)"
    show ?thesis
    proof (cases "v < length g")
      case out: False
      then have "sort_loop pick g vs sm = (g, sm)" "sort_loop pick g' vs sm = (g', sm)"
        using False len by (simp_all add: sort_loop.simps[of pick _ vs sm] v_def Let_def)
      with "1.prems" show ?thesis by simp
    next
      case True
      define g1 where "g1 = g[v := (g ! v)\<lparr>adjList := []\<rparr>]"
      define g1' where "g1' = g'[v := (g' ! v)\<lparr>adjList := []\<rparr>]"
      have s1: "same_adj g1 g1'" unfolding g1_def g1'_def using "1.prems" by (rule same_adj_clear)
      have val: "vertex_value (g ! v) = vertex_value (g' ! v)"
        and fo: "first_occ (adjList (g ! v)) = first_occ (adjList (g' ! v))"
        using "1.prems" True by (simp_all add: same_adj_def)
      have ins: "insert_unreferenced g1 (adjList (g ! v)) (removeAll v vs) =
          insert_unreferenced g1' (adjList (g' ! v)) (removeAll v vs)"
        using same_adj_referenced[OF s1] fo by (simp add: insert_unreferenced_closed)
      have eq: "sort_loop pick g vs sm = sort_loop pick g1
           (insert_unreferenced g1 (adjList (g ! v)) (removeAll v vs))
           (sm @ [vertex_value (g ! v)])"
        using False True
        by (subst sort_loop.simps) (simp add: v_def g1_def Let_def)
      have eq': "sort_loop pick g' vs sm = sort_loop pick g1'
           (insert_unreferenced g1 (adjList (g ! v)) (removeAll v vs))
           (sm @ [vertex_value (g ! v)])"
        using False True len
        by (subst sort_loop.simps) (simp add: v_def g1'_def Let_def ins[unfolded g1'_def v_def] val[unfolded v_def])
      have nn: "\<not> \<not> v < length g" using True by simp
      show ?thesis
        unfolding eq eq'
        using "1.IH"[OF False v_def nn refl g1_def s1] .
    qed
  qed
qed


lemma same_deps_modules:
  "list_all2 same_deps mds mds' \<Longrightarrow> map fst mds = map fst mds'"
  by (induction rule: list_all2_induct) (simp_all add: same_deps_def)

lemma same_deps_names:
  "list_all2 same_deps mds mds' \<Longrightarrow>
     (\<Union>r \<in> set mds. set (snd r)) = (\<Union>r \<in> set mds'. set (snd r))"
  by (induction rule: list_all2_induct) (simp_all add: same_deps_def)

lemma maps_of_modules:
  assumes "map fst mds = map fst mds'"
  shows "moduleMap_of mds = moduleMap_of mds'" and "vertexMap_of mds = vertexMap_of mds'"
proof -
  have "map (\<lambda>r. (name (fst r), fst r)) mds = map (\<lambda>m. (name m, m)) (map fst mds)"
    "map (\<lambda>r. (name (fst r), fst r)) mds' = map (\<lambda>m. (name m, m)) (map fst mds')"
    by simp_all
  with assms have a: "map (\<lambda>r. (name (fst r), fst r)) mds = map (\<lambda>r. (name (fst r), fst r)) mds'"
    by simp
  have b: "length mds = length mds'" using assms by (rule map_eq_imp_length_eq)
  show "moduleMap_of mds = moduleMap_of mds'"
    by (simp add: moduleMap_of_def createGraph_vertices_closed a)
  show "vertexMap_of mds = vertexMap_of mds'"
    by (simp add: vertexMap_of_def createGraph_vertices_closed assms b)
qed

lemma same_deps_resolves:
  assumes "list_all2 same_deps mds mds'"
  shows "resolves mds = resolves mds'"
proof -
  have m: "map fst mds = map fst mds'" using assms by (rule same_deps_modules)
  have "(\<lambda>r. name (fst r)) ` set mds = name ` set (map fst mds)"
    "(\<lambda>r. name (fst r)) ` set mds' = name ` set (map fst mds')"
    by (simp_all add: image_image)
  with m have n: "(\<lambda>r. name (fst r)) ` set mds = (\<lambda>r. name (fst r)) ` set mds'" by simp
  have "resolves mds \<longleftrightarrow> (\<Union>r \<in> set mds. set (snd r)) \<subseteq> (\<lambda>r. name (fst r)) ` set mds"
    unfolding resolves_def by blast
  also have "\<dots> \<longleftrightarrow> (\<Union>r \<in> set mds'. set (snd r)) \<subseteq> (\<lambda>r. name (fst r)) ` set mds'"
    using same_deps_names[OF assms] n by simp
  also have "\<dots> \<longleftrightarrow> resolves mds'"
    unfolding resolves_def by blast
  finally show ?thesis .
qed

lemma edges_into_Cons:
  "edges_into mm vm (r # regs) j =
     replicate (length (filter (\<lambda>nm. the (vm (the (mm nm))) = j) (snd r))) (the (vm (fst r)))
       @ edges_into mm vm regs j"
  by (simp add: edges_into_def)

lemma same_deps_edges_into:
  assumes "list_all2 same_deps mds mds'"
  shows "first_occ (edges_into mm vm mds j) = first_occ (edges_into mm vm mds' j)"
  using assms
proof (induction rule: list_all2_induct)
  case Nil
  show ?case by simp
next
  case (Cons r rs r' rs')
  let ?c = "\<lambda>r. length (filter (\<lambda>nm. the (vm (the (mm nm))) = j) (snd r))"
  have v: "fst r = fst r'" and d: "set (snd r) = set (snd r')"
    using Cons.hyps(1) by (simp_all add: same_deps_def)
  have "?c r = 0 \<longleftrightarrow> (\<forall>nm \<in> set (snd r). the (vm (the (mm nm))) \<noteq> j)"
    by (simp add: filter_empty_conv)
  moreover have "?c r' = 0 \<longleftrightarrow> (\<forall>nm \<in> set (snd r'). the (vm (the (mm nm))) \<noteq> j)"
    by (simp add: filter_empty_conv)
  ultimately have z: "?c r = 0 \<longleftrightarrow> ?c r' = 0" using d by simp
  have f: "first_occ (replicate (?c r) (the (vm (fst r)))) =
      first_occ (replicate (?c r') (the (vm (fst r'))))"
    using z v by (simp add: first_occ_replicate)
  have s: "set (replicate (?c r) (the (vm (fst r)))) = set (replicate (?c r') (the (vm (fst r'))))"
    using z v by (simp add: set_replicate_conv_if)
  show ?case
    unfolding edges_into_Cons first_occ_append f s Cons.IH ..
qed

lemma same_deps_createGraph:
  assumes sd: "list_all2 same_deps mds mds'"
    and cg: "createGraph mds = Some g" "createGraph mds' = Some g'"
  shows "same_adj g g'"
proof -
  have m: "map fst mds = map fst mds'" using sd by (rule same_deps_modules)
  then have len: "length mds = length mds'" by (rule map_eq_imp_length_eq)
  have "vertex_value (g ! v) = vertex_value (g' ! v) \<and>
      first_occ (adjList (g ! v)) = first_occ (adjList (g' ! v))" if v: "v < length mds" for v
  proof -
    have "fst (mds ! v) = fst (mds' ! v)"
      using m v len by (metis nth_map)
    then have "vertex_value (g ! v) = vertex_value (g' ! v)"
      using createGraph_Some(2)[OF cg(1) v] createGraph_Some(2)[OF cg(2), of v] v len by simp
    moreover have "first_occ (adjList (g ! v)) = first_occ (adjList (g' ! v))"
      using createGraph_Some(3)[OF cg(1) v] createGraph_Some(3)[OF cg(2), of v] v len
        maps_of_modules[OF m] same_deps_edges_into[OF sd]
      by simp
    ultimately show ?thesis ..
  qed
  then show ?thesis
    using createGraph_Some(1)[OF cg(1)] createGraph_Some(1)[OF cg(2)] len
    by (simp add: same_adj_def)
qed

text \<open>
  Claim C8.  If two registries hold the same modules in the same order and the
  dependency lists of each module name the same modules, one of them with names
  repeated, then \<open>sort\<close> gives the same result for both: both fail or both return the
  same order.
\<close>

theorem duplicate_dependencies_no_effect:
  assumes "list_all2 same_deps mds mds'"
  shows "sort_modules pick mds = sort_modules pick mds'"
proof (cases "createGraph mds")
  case None
  then have "createGraph mds' = None"
    using same_deps_resolves[OF assms] by (simp add: createGraph_None_iff)
  with None show ?thesis by (simp add: sort_modules_def)
next
  case (Some g)
  then obtain g' where g': "createGraph mds' = Some g'"
    using same_deps_resolves[OF assms] createGraph_None_iff[of mds] createGraph_None_iff[of mds']
    by auto
  have sa: "same_adj g g'" using assms Some g' by (rule same_deps_createGraph)
  have i: "initial_vertices g = initial_vertices g'" using sa by (rule same_adj_initial)
  obtain h sm where l: "sort_loop pick g (initial_vertices g) [] = (h, sm)"
    by (cases "sort_loop pick g (initial_vertices g) []") auto
  obtain h' sm' where l': "sort_loop pick g' (initial_vertices g) [] = (h', sm')"
    by (cases "sort_loop pick g' (initial_vertices g) []") auto
  from sort_loop_same_adj[OF sa, of pick "initial_vertices g" "[]"] l l'
  have "sm = sm'" "same_adj h h'" by simp_all
  with same_adj_nonempty[of h h'] show ?thesis
    by (simp add: sort_modules_def Some g' i[symmetric] l l')
qed

theorem duplicate_dependencies_no_effect_witness:
  "list_all2 same_deps [(modA, []), (modB, [''A'', ''A'']), (modC, [''B'', ''A'', ''B''])]
                       [(modA, []), (modB, [''A'']), (modC, [''A'', ''B''])]
   \<and> sort_modules first_begin [(modA, []), (modB, [''A'', ''A'']), (modC, [''B'', ''A'', ''B''])]
     = sort_modules first_begin [(modA, []), (modB, [''A'']), (modC, [''A'', ''B''])]"
proof -
  have h: "list_all2 same_deps [(modA, []), (modB, [''A'', ''A'']), (modC, [''B'', ''A'', ''B''])]
                       [(modA, []), (modB, [''A'']), (modC, [''A'', ''B''])]"
    by (auto simp: same_deps_def)
  from duplicate_dependencies_no_effect[OF h, of first_begin] h show ?thesis by simp
qed

end
